theory Spec2Isabelle
  imports Main
begin

section \<open>CourseSnag: a shallow embedding of \<open>src/app.js\<close>\<close>

text \<open>
  The application is one JavaScript closure with a mutable \<open>state\<close> object, a
  \<open>dismissedAlerts\<close> map, the page's DOM and \<open>localStorage\<close>. The embedding
  passes that state explicitly. Times are \<open>Date.now()\<close> values: integers, in
  milliseconds. Strings are ASCII character lists.
\<close>

subsection \<open>Configuration\<close>

definition API_BASE :: string where
  "API_BASE = ''https://classes.cornell.edu/api/2.0''"

definition RATE_LIMIT_MS :: int where
  "RATE_LIMIT_MS = 1000"

subsection \<open>Strings\<close>

text \<open>\<open>String(n)\<close> and template-literal rendering of a non-negative integer.\<close>

fun string_of_nat :: "nat \<Rightarrow> string" where
  "string_of_nat n =
     (if n < 10 then [''0123456789'' ! n]
      else string_of_nat (n div 10) @ [''0123456789'' ! (n mod 10)])"

declare string_of_nat.simps [simp del]

text \<open>\<open>s.startsWith(p)\<close> and \<open>s.includes(p)\<close>.\<close>

definition startsWith :: "string \<Rightarrow> string \<Rightarrow> bool" where
  "startsWith s p = (take (length p) s = p)"

fun includes_str :: "string \<Rightarrow> string \<Rightarrow> bool" where
  "includes_str [] p = (p = [])"
| "includes_str (c # cs) p = (startsWith (c # cs) p \<or> includes_str cs p)"

text \<open>
  \<open>s.trim()\<close> and \<open>s.toUpperCase()\<close> on ASCII text: the white space and line
  terminators below 128, and the letters a to z.
\<close>

definition isWhitespace :: "char \<Rightarrow> bool" where
  "isWhitespace c = (c \<in> set [CHR 0x09, CHR 0x0A, CHR 0x0B, CHR 0x0C, CHR 0x0D, CHR '' ''])"

definition isLineTerminator :: "char \<Rightarrow> bool" where
  "isLineTerminator c = (c \<in> set [CHR 0x0A, CHR 0x0D])"

definition isUpperAZ :: "char \<Rightarrow> bool" where
  "isUpperAZ c = (c \<in> set ''ABCDEFGHIJKLMNOPQRSTUVWXYZ'')"

definition isDigit :: "char \<Rightarrow> bool" where
  "isDigit c = (c \<in> set ''0123456789'')"

definition trim :: "string \<Rightarrow> string" where
  "trim s = rev (dropWhile isWhitespace (rev (dropWhile isWhitespace s)))"

definition upperChar :: "char \<Rightarrow> char" where
  "upperChar c =
     (case map_of (zip ''abcdefghijklmnopqrstuvwxyz'' ''ABCDEFGHIJKLMNOPQRSTUVWXYZ'') c of
        Some u \<Rightarrow> u
      | None \<Rightarrow> c)"

definition toUpperCase :: "string \<Rightarrow> string" where
  "toUpperCase s = map upperChar s"

subsection \<open>Errors and the catalog service's responses\<close>

text \<open>A thrown \<open>Error\<close> object, by its \<open>message\<close>.\<close>

datatype error = Error (message: string)

text \<open>
  What \<open>fetch(url)\<close> and \<open>response.json()\<close> can give: \<open>fetch\<close> rejects (a network
  failure), or there is a response with its \<open>ok\<close> flag and \<open>status\<close> code, whose body
  either does not parse or is the envelope \<open>{status, message, data}\<close>.
\<close>

datatype 'd body = Unparsable string | Envelope string "string option" 'd

datatype 'd http_outcome = FetchRejects string | Response bool nat "'d body"

text \<open>The task's own steps after the dispatch (lines 457 to 467).\<close>

definition fetch_result :: "'d http_outcome \<Rightarrow> error + 'd" where
  "fetch_result h =
     (case h of
        FetchRejects m \<Rightarrow> Inl (Error m)
      | Response ok code b \<Rightarrow>
          if \<not> ok then Inl (Error (''API error: '' @ string_of_nat code))
          else (case b of
                  Unparsable m \<Rightarrow> Inl (Error m)
                | Envelope st msg d \<Rightarrow>
                    if st \<noteq> ''success''
                    then Inl (Error (case msg of
                                       None \<Rightarrow> ''API returned error status''
                                     | Some m \<Rightarrow> if m = [] then ''API returned error status'' else m))
                    else Inr d))"

text \<open>\<open>getUserFriendlyError(error, context)\<close>.\<close>

definition getUserFriendlyError :: "error \<Rightarrow> string \<Rightarrow> string" where
  "getUserFriendlyError err ctxt =
     (let msg = message err in
      if includes_str msg ''Failed to fetch'' \<or> includes_str msg ''NetworkError''
      then ''Unable to connect. Check your internet connection.''
      else if includes_str msg ''API error: 404'' then ctxt @ '' not found.''
      else if includes_str msg ''API error: 429'' then ''Too many requests. Please wait a moment.''
      else if includes_str msg ''API error: 5'' then ''Cornell server error. Try again later.''
      else if msg = [] then ''An unexpected error occurred.'' else msg)"

subsection \<open>The request scheduler: \<open>rateLimitedFetch\<close>\<close>

text \<open>
  A promise is modelled by the instant it settles and by how it settles. The run of the
  program is cooperative and single-threaded, so the whole future of a call is fixed by
  what the environment does for it: when the caller makes the call, how long the event
  loop takes to start a ready callback, by how much the \<open>setTimeout\<close> timer overshoots
  its delay, how long the network takes and what it answers. These are the fields of a
  \<open>call_env\<close>; the three delays are natural numbers, so a callback never runs before it
  is ready, a timer never fires before its delay, and every fetch settles.
\<close>

record 'a promise =
  settledAt :: int
  settlement :: "error + 'a"

record 'd call_env =
  calledAt :: int
  startLag :: nat
  timerLag :: nat
  latency :: nat
  outcome :: "'d http_outcome"

text \<open>One entry per call of \<open>fetch(url)\<close>: when it began and when its task settled.\<close>

record dispatch =
  url :: string
  dispatchedAt :: int
  completedAt :: int

text \<open>
  \<open>state.lastRequestTime\<close> and \<open>state.requestQueue\<close>, with the trace of dispatches.
  Only tasks write \<open>lastRequestTime\<close>, and a task runs after the task chained before
  it has settled, so the value a task reads is the one its predecessor wrote.
\<close>

record sched =
  lastRequestTime :: int
  requestQueue :: "unit promise"
  dispatches :: "dispatch list"

definition init_sched :: sched where
  "init_sched = \<lparr>lastRequestTime = 0,
                 requestQueue = \<lparr>settledAt = 0, settlement = Inr ()\<rparr>,
                 dispatches = []\<rparr>"

text \<open>
  The closure \<open>task\<close> (lines 447 to 468), started at instant \<open>start\<close>: it reads the
  clock, waits for the rest of the interval if less than \<open>RATE_LIMIT_MS\<close> has passed
  since the last dispatch, stamps \<open>lastRequestTime\<close> and fetches.
\<close>

definition task :: "string \<Rightarrow> 'd call_env \<Rightarrow> int \<Rightarrow> sched \<Rightarrow> 'd promise \<times> sched" where
  "task u env start s =
     (let now = start;
          timeSinceLast = now - lastRequestTime s;
          dispatchTime =
            (if timeSinceLast < RATE_LIMIT_MS
             then now + (RATE_LIMIT_MS - timeSinceLast) + int (timerLag env)
             else now);
          finished = dispatchTime + int (latency env)
      in (\<lparr>settledAt = finished, settlement = fetch_result (outcome env)\<rparr>,
          s\<lparr>lastRequestTime := dispatchTime,
            dispatches := dispatches s @
              [\<lparr>url = u, dispatchedAt = dispatchTime, completedAt = finished\<rparr>]\<rparr>))"

text \<open>\<open>p.catch(() => {})\<close>: settles when \<open>p\<close> does, and is never rejected.\<close>

definition catch_ignore :: "'a promise \<Rightarrow> unit promise" where
  "catch_ignore p = \<lparr>settledAt = settledAt p, settlement = Inr ()\<rparr>"

text \<open>
  \<open>rateLimitedFetch(url)\<close>: \<open>state.requestQueue.then(task, task)\<close> starts the task once
  the queue has settled, whichever way; the queue becomes the task's promise with its
  rejection swallowed; the caller gets the task's promise.
\<close>

definition rateLimitedFetch :: "string \<Rightarrow> 'd call_env \<Rightarrow> sched \<Rightarrow> 'd promise \<times> sched" where
  "rateLimitedFetch u env s =
     (let q = requestQueue s;
          start = max (calledAt env) (settledAt q) + int (startLag env);
          (taskPromise, s') =
            (case settlement q of
               Inr _ \<Rightarrow> task u env start s
             | Inl _ \<Rightarrow> task u env start s)
      in (taskPromise, s'\<lparr>requestQueue := catch_ignore taskPromise\<rparr>))"

text \<open>A sequence of calls, in the order the callers make them.\<close>

fun submit_all :: "(string \<times> 'd call_env) list \<Rightarrow> sched \<Rightarrow> 'd promise list \<times> sched" where
  "submit_all [] s = ([], s)"
| "submit_all ((u, env) # cs) s =
     (let (p, s') = rateLimitedFetch u env s;
          (ps, s'') = submit_all cs s'
      in (p # ps, s''))"

text \<open>
  Consecutive dispatches begin at least \<open>RATE_LIMIT_MS\<close> apart (\<open>spaced\<close>), and a
  dispatch begins only after the task before it has settled (\<open>serial\<close>).
\<close>

fun spaced :: "dispatch list \<Rightarrow> bool" where
  "spaced (a # b # ds) = (dispatchedAt a + RATE_LIMIT_MS \<le> dispatchedAt b \<and> spaced (b # ds))"
| "spaced ds = True"

fun serial :: "dispatch list \<Rightarrow> bool" where
  "serial (a # b # ds) = (completedAt a \<le> dispatchedAt b \<and> serial (b # ds))"
| "serial ds = True"

definition sched_inv :: "sched \<Rightarrow> bool" where
  "sched_inv s =
     (lastRequestTime s \<le> settledAt (requestQueue s) \<and>
      spaced (dispatches s) \<and> serial (dispatches s) \<and>
      (dispatches s = [] \<or>
         (dispatchedAt (last (dispatches s)) = lastRequestTime s \<and>
          completedAt (last (dispatches s)) \<le> settledAt (requestQueue s))))"


subsection \<open>Catalog data and tracked sections\<close>

text \<open>
  The part of a class listing the program reads. \<open>course.enrollGroups\<close> and
  \<open>eg.classSections\<close> may be missing (the source reads them as \<open>x || []\<close>). The
  service reports \<open>classNbr\<close> as a number and \<open>openStatus\<close> as a string. The fields
  carry a prefix because a tracked section has fields of the same names.
\<close>

record classSection =
  sec_classNbr :: nat
  sec_openStatus :: string
  sec_section :: string
  sec_ssrComponent :: string

record enrollGroup =
  classSections :: "classSection list option"

record course =
  c_subject :: string
  c_catalogNbr :: string
  c_titleShort :: string
  enrollGroups :: "enrollGroup list option"

text \<open>\<open>data.classes\<close> of the envelope's \<open>data\<close>; \<open>searchClasses\<close> returns \<open>data.classes || []\<close>.\<close>

type_synonym payload = "course list option"

definition searchClasses_result :: "error + payload \<Rightarrow> error + course list" where
  "searchClasses_result r =
     (case r of
        Inl e \<Rightarrow> Inl e
      | Inr d \<Rightarrow> Inr (case d of None \<Rightarrow> [] | Some cs \<Rightarrow> cs))"

text \<open>
  An entry of \<open>state.trackedSections\<close>. The field \<open>section\<close> of the source is
  \<open>sectionName\<close> here. \<open>roster\<close> is \<open>state.currentRoster\<close> at the time of tracking,
  which is \<open>null\<close> until the rosters are loaded.
\<close>

record tracked =
  classNbr :: string
  roster :: "string option"
  subject :: string
  catalogNbr :: string
  title :: string
  sectionName :: string
  ssrComponent :: string
  lastStatus :: string
  lastCheckedAt :: int

text \<open>A value inside a template literal: \<open>null\<close> prints as \<open>null\<close>.\<close>

definition render :: "string option \<Rightarrow> string" where
  "render r = (case r of None \<Rightarrow> ''null'' | Some x \<Rightarrow> x)"

text \<open>The key of a tracked section: roster, a colon, class number.\<close>

definition keyOf :: "string option \<Rightarrow> string \<Rightarrow> string" where
  "keyOf r n = render r @ '':'' @ n"

definition itemKey :: "tracked \<Rightarrow> string" where
  "itemKey item = keyOf (roster item) (classNbr item)"

definition identity :: "tracked \<Rightarrow> string option \<times> string" where
  "identity item = (roster item, classNbr item)"

definition searchUrl :: "string option \<Rightarrow> string \<Rightarrow> string" where
  "searchUrl r sbj = API_BASE @ ''/search/classes.json?roster='' @ render r @ ''&subject='' @ sbj"

subsection \<open>The application state\<close>

text \<open>
  The fields of \<open>state\<close> that the modelled functions touch, the \<open>dismissedAlerts\<close> map,
  the three \<open>localStorage\<close> records, and what the functions read and write in the page:

  \<^item> \<open>searchInput\<close> is \<open>els.searchInput.value\<close>; \<open>searchDebounceTimer\<close> says whether the
    debounce timer is pending (every \<open>setTimeout\<close> on it follows a \<open>clearTimeout\<close>);
  \<^item> \<open>fetchRequests\<close> lists the URLs of the calls of \<open>searchClasses\<close>, each of which is
    one call of \<open>rateLimitedFetch\<close>;
  \<^item> \<open>trackedElements\<close> lists the \<open>data-tracked-key\<close> of the rendered tracked items and
    \<open>alertOverlays\<close> the keys whose element \<open>alert-<key>\<close> exists;
  \<^item> \<open>evictionTimers\<close> lists the pending timers of \<open>dismissAlertFor5Minutes\<close>, each with
    its key and due time;
  \<^item> \<open>soundRequests\<close> counts the calls of \<open>startAlertSound\<close>, \<open>notifyRequests\<close> lists
    the calls of \<open>showNotification\<close> and \<open>notifications\<close> the \<open>Notification\<close> objects
    created;
  \<^item> \<open>storageWritable\<close>, \<open>audioAvailable\<close>, \<open>notificationSupport\<close> and
    \<open>notificationPermission\<close> are the browser's: whether \<open>localStorage.setItem\<close>
    succeeds, whether an \<open>AudioContext\<close> can be set up, \<open>hasNotificationSupport()\<close> and
    \<open>Notification.permission\<close>.
\<close>

record app =
  searchInput :: string
  subjectSet :: "string set"
  currentRoster :: "string option"
  cachedSubject :: "string option"
  cachedClasses :: "course list"
  searchResults :: "course list"
  expandedCourses :: "string set"
  isSearching :: bool
  searchRequestSeq :: nat
  searchError :: "string option"
  searchDebounceTimer :: bool
  fetchRequests :: "string list"
  trackedSections :: "tracked list"
  trackedKeySet :: "string set"
  storageWritable :: bool
  storedTracked :: "tracked list option"
  storedDismissed :: "string \<rightharpoonup> int"
  dismissedAlerts :: "string \<rightharpoonup> int"
  evictionTimers :: "(string \<times> int) list"
  isAlerting :: bool
  soundEnabled :: bool
  notifyEnabled :: bool
  audioAvailable :: bool
  notificationSupport :: bool
  notificationPermission :: string
  soundRequests :: nat
  notifyRequests :: "(string \<times> string) list"
  notifications :: "(string \<times> string) list"
  trackedElements :: "string list"
  alertOverlays :: "string set"
  trackedStatusText :: string
  trackedStatusClasses :: "string set"
  refreshBtnDisabled :: bool
  lastUpdated :: "int option"
  isRefreshing :: bool
  pollingTimer :: "nat option"
  pollingIntervalSec :: nat

text \<open>
  The state when the script starts, before \<open>init\<close> runs, in a browser whose storage
  holds \<open>st\<close> (tracked list) and \<open>sd\<close> (dismissals).
\<close>

definition fresh_app :: "tracked list option \<Rightarrow> (string \<rightharpoonup> int) \<Rightarrow> app" where
  "fresh_app st sd =
     \<lparr>searchInput = [], subjectSet = {}, currentRoster = None, cachedSubject = None,
      cachedClasses = [], searchResults = [], expandedCourses = {}, isSearching = False,
      searchRequestSeq = 0, searchError = None, searchDebounceTimer = False,
      fetchRequests = [], trackedSections = [], trackedKeySet = {},
      storageWritable = True, storedTracked = st, storedDismissed = sd,
      dismissedAlerts = Map.empty, evictionTimers = [], isAlerting = False,
      soundEnabled = True, notifyEnabled = True, audioAvailable = True,
      notificationSupport = True, notificationPermission = ''granted'',
      soundRequests = 0, notifyRequests = [], notifications = [],
      trackedElements = [], alertOverlays = {}, trackedStatusText = [],
      trackedStatusClasses = {}, refreshBtnDisabled = True, lastUpdated = None,
      isRefreshing = False, pollingTimer = None, pollingIntervalSec = 60\<rparr>"

subsection \<open>Storage, sound, notifications\<close>

text \<open>\<open>saveToStorage\<close> swallows a failing \<open>setItem\<close>.\<close>

definition saveTrackedSections :: "app \<Rightarrow> app" where
  "saveTrackedSections s =
     (if storageWritable s then s\<lparr>storedTracked := Some (trackedSections s)\<rparr> else s)"

definition saveDismissedAlerts :: "app \<Rightarrow> app" where
  "saveDismissedAlerts s =
     (if storageWritable s then s\<lparr>storedDismissed := dismissedAlerts s\<rparr> else s)"

definition loadDismissedAlerts :: "int \<Rightarrow> app \<Rightarrow> app" where
  "loadDismissedAlerts now s =
     s\<lparr>dismissedAlerts :=
         (\<lambda>k. case storedDismissed s k of
                 None \<Rightarrow> dismissedAlerts s k
               | Some expirationTime \<Rightarrow>
                   if expirationTime > now then Some expirationTime else dismissedAlerts s k)\<rparr>"

definition startAlertSound :: "app \<Rightarrow> app" where
  "startAlertSound s =
     (let s1 = s\<lparr>soundRequests := soundRequests s + 1\<rparr> in
      if isAlerting s1 then s1
      else if audioAvailable s1 then s1\<lparr>isAlerting := True\<rparr>
      else s1)"

definition stopAlertSound :: "app \<Rightarrow> app" where
  "stopAlertSound s = (if \<not> isAlerting s then s else s\<lparr>isAlerting := False\<rparr>)"

definition showNotification :: "string \<Rightarrow> string \<Rightarrow> app \<Rightarrow> app" where
  "showNotification ttl bdy s =
     (let s1 = s\<lparr>notifyRequests := notifyRequests s @ [(ttl, bdy)]\<rparr> in
      if \<not> notifyEnabled s1 then s1
      else if \<not> notificationSupport s1 then s1
      else if notificationPermission s1 \<noteq> ''granted'' then s1
      else s1\<lparr>notifications := notifications s1 @ [(ttl, bdy)]\<rparr>)"

subsection \<open>The alert suppression registry\<close>

text \<open>
  \<open>isAlertDismissed(trackedKey)\<close> at clock reading \<open>now\<close>: the answer and the state,
  which changes when an expired entry is evicted.
\<close>

definition isAlertDismissed :: "string \<Rightarrow> int \<Rightarrow> app \<Rightarrow> bool \<times> app" where
  "isAlertDismissed trackedKey now s =
     (case dismissedAlerts s trackedKey of
        None \<Rightarrow> (False, s)
      | Some expirationTime \<Rightarrow>
          if now > expirationTime
          then (False, saveDismissedAlerts
                         (s\<lparr>dismissedAlerts := (dismissedAlerts s)(trackedKey := None)\<rparr>))
          else (True, s))"

text \<open>
  \<open>hasActiveUndismissedOpenAlerts()\<close>: \<open>some\<close> stops at the first item that answers
  true, and \<open>&&\<close> asks the registry only for an item whose status is \<open>O\<close>.
\<close>

fun some_active :: "int \<Rightarrow> tracked list \<Rightarrow> app \<Rightarrow> bool \<times> app" where
  "some_active now [] s = (False, s)"
| "some_active now (item # rest) s =
     (if lastStatus item = ''O''
      then (let (dismissed, s1) = isAlertDismissed (itemKey item) now s in
            if \<not> dismissed then (True, s1) else some_active now rest s1)
      else some_active now rest s)"

definition hasActiveUndismissedOpenAlerts :: "int \<Rightarrow> app \<Rightarrow> bool \<times> app" where
  "hasActiveUndismissedOpenAlerts now s = some_active now (trackedSections s) s"

text \<open>
  \<open>dismissAlertFor5Minutes(trackedKey)\<close> at clock reading \<open>now\<close>. The last step
  registers the timer whose callback is \<open>evictionTimerFires\<close>.
\<close>

definition dismissAlertFor5Minutes :: "string \<Rightarrow> int \<Rightarrow> app \<Rightarrow> app" where
  "dismissAlertFor5Minutes trackedKey now s =
     (let expirationTime = now + 5 * 60 * 1000;
          s1 = s\<lparr>dismissedAlerts := (dismissedAlerts s)(trackedKey \<mapsto> expirationTime)\<rparr>;
          s2 = saveDismissedAlerts s1;
          (active, s3) = hasActiveUndismissedOpenAlerts now s2;
          s4 = (if \<not> active then stopAlertSound s3 else s3)
      in s4\<lparr>evictionTimers := evictionTimers s4 @ [(trackedKey, now + 5 * 60 * 1000)]\<rparr>)"

definition evictionTimerFires :: "string \<Rightarrow> app \<Rightarrow> app" where
  "evictionTimerFires trackedKey s =
     saveDismissedAlerts (s\<lparr>dismissedAlerts := (dismissedAlerts s)(trackedKey := None)\<rparr>)"

subsection \<open>The alert dispatcher\<close>

text \<open>
  \<open>showAlertOverItem\<close>: nothing if the overlay exists, else it is attached. The button
  handlers of the overlay are \<open>onDismiss5min\<close> here and \<open>untrack\<close> below.
\<close>

definition showAlertOverItem :: "string \<Rightarrow> app \<Rightarrow> app" where
  "showAlertOverItem trackedKey s =
     (if trackedKey \<in> alertOverlays s then s
      else s\<lparr>alertOverlays := insert trackedKey (alertOverlays s)\<rparr>)"

definition onDismiss5min :: "string \<Rightarrow> int \<Rightarrow> app \<Rightarrow> app" where
  "onDismiss5min trackedKey now s =
     (let s1 = dismissAlertFor5Minutes trackedKey now s
      in s1\<lparr>alertOverlays := alertOverlays s1 - {trackedKey}\<rparr>)"

text \<open>The \<open>for\<close> loop of \<open>triggerOpenAlert\<close>, collecting \<open>actionableSections\<close>.\<close>

fun alert_loop :: "int \<Rightarrow> tracked list \<Rightarrow> app \<Rightarrow> tracked list \<Rightarrow> app \<times> tracked list" where
  "alert_loop now [] s actionable = (s, actionable)"
| "alert_loop now (item # rest) s actionable =
     (if itemKey item \<notin> trackedKeySet s then alert_loop now rest s actionable
      else (let (dismissed, s1) = isAlertDismissed (itemKey item) now s in
            if dismissed then alert_loop now rest s1 actionable
            else if itemKey item \<in> set (trackedElements s1)
            then alert_loop now rest (showAlertOverItem (itemKey item) s1) (actionable @ [item])
            else alert_loop now rest s1 actionable))"

definition alertMessage :: "tracked list \<Rightarrow> string" where
  "alertMessage actionable =
     (let names = map (\<lambda>s. subject s @ '' '' @ catalogNbr s) actionable in
      if length names = 1 then hd names @ '' is now OPEN!''
      else string_of_nat (length names) @ '' sections are now OPEN!'')"

definition triggerOpenAlert :: "int \<Rightarrow> tracked list \<Rightarrow> app \<Rightarrow> app" where
  "triggerOpenAlert now openedSections s =
     (if openedSections = [] then s
      else (let (s1, actionable) = alert_loop now openedSections s [];
                s2 = (if actionable \<noteq> [] \<and> soundEnabled s1 then startAlertSound s1 else s1)
            in if actionable \<noteq> [] \<and> notifyEnabled s2
               then showNotification ''CourseSnag Alert'' (alertMessage actionable) s2
               else s2))"

text \<open>
  The filter \<open>item.lastStatus === 'O' && !isAlertDismissed(key) && !excluded.has(key)\<close>
  over a list of tracked items, used by \<open>showAlertsForOpenSections\<close> (nothing excluded)
  and by the second pass of \<open>refreshTrackedSections\<close>.
\<close>

fun open_undismissed :: "int \<Rightarrow> string set \<Rightarrow> tracked list \<Rightarrow> app \<Rightarrow> app \<times> tracked list" where
  "open_undismissed now excluded [] s = (s, [])"
| "open_undismissed now excluded (item # rest) s =
     (if lastStatus item = ''O''
      then (let (dismissed, s1) = isAlertDismissed (itemKey item) now s in
            if \<not> dismissed \<and> itemKey item \<notin> excluded
            then (let (s2, kept) = open_undismissed now excluded rest s1 in (s2, item # kept))
            else open_undismissed now excluded rest s1)
      else open_undismissed now excluded rest s)"

text \<open>
  \<open>showAlertsForOpenSections()\<close> gives the state and, when some stored-open section is
  not dismissed, the argument of the \<open>triggerOpenAlert\<close> call it defers by 100 ms.
\<close>

definition showAlertsForOpenSections :: "int \<Rightarrow> app \<Rightarrow> app \<times> tracked list option" where
  "showAlertsForOpenSections now s =
     (let (s1, openSections) = open_undismissed now {} (trackedSections s) s
      in (s1, if openSections \<noteq> [] then Some openSections else None))"

subsection \<open>The tracking store\<close>

definition renderTrackedList :: "app \<Rightarrow> app" where
  "renderTrackedList s =
     s\<lparr>trackedElements := map itemKey (trackedSections s), alertOverlays := {}\<rparr>"

definition loadTrackedSections :: "app \<Rightarrow> app" where
  "loadTrackedSections s =
     (let loaded = (case storedTracked s of None \<Rightarrow> [] | Some l \<Rightarrow> l)
      in renderTrackedList
           (s\<lparr>trackedSections := loaded, trackedKeySet := set (map itemKey loaded)\<rparr>))"

definition toggleTrack ::
  "string \<Rightarrow> string \<Rightarrow> string \<Rightarrow> string \<Rightarrow> string \<Rightarrow> string \<Rightarrow> string \<Rightarrow> int \<Rightarrow> app \<Rightarrow> app" where
  "toggleTrack classNbrStr sbj cat ttl sec component openStatus now s =
     (let trackKey = keyOf (currentRoster s) classNbrStr in
      if trackKey \<in> trackedKeySet s then s
      else (let newItem = \<lparr>classNbr = classNbrStr, roster = currentRoster s, subject = sbj,
                            catalogNbr = cat, title = ttl, sectionName = sec,
                            ssrComponent = component, lastStatus = openStatus,
                            lastCheckedAt = now\<rparr>;
                s1 = s\<lparr>trackedSections := trackedSections s @ [newItem],
                       trackedKeySet := insert trackKey (trackedKeySet s)\<rparr>;
                s2 = renderTrackedList (saveTrackedSections s1)
            in if openStatus = ''O'' then triggerOpenAlert now [newItem] s2 else s2))"

text \<open>The loop of \<open>untrack\<close> over the keys it removed.\<close>

fun untrack_keys :: "string list \<Rightarrow> app \<Rightarrow> app" where
  "untrack_keys [] s = s"
| "untrack_keys (k # ks) s =
     (let s1 = s\<lparr>trackedKeySet := trackedKeySet s - {k}\<rparr>;
          s2 = (if dismissedAlerts s1 k \<noteq> None
                then saveDismissedAlerts (s1\<lparr>dismissedAlerts := (dismissedAlerts s1)(k := None)\<rparr>)
                else s1)
      in untrack_keys ks (s2\<lparr>alertOverlays := alertOverlays s2 - {k}\<rparr>))"

text \<open>
  \<open>untrack(classNbr, roster)\<close>: \<open>!roster\<close> holds for \<open>null\<close> and for the empty string.
\<close>

definition untrack_matches :: "string \<Rightarrow> string option \<Rightarrow> tracked \<Rightarrow> bool" where
  "untrack_matches classNbrStr r t =
     (classNbr t = classNbrStr \<and> (r = None \<or> r = Some [] \<or> roster t = r))"

definition untrack :: "string \<Rightarrow> string option \<Rightarrow> int \<Rightarrow> app \<Rightarrow> app" where
  "untrack classNbrStr r now s =
     (let removed = map itemKey (filter (untrack_matches classNbrStr r) (trackedSections s));
          s1 = s\<lparr>trackedSections :=
                   filter (\<lambda>t. \<not> untrack_matches classNbrStr r t) (trackedSections s)\<rparr>;
          s2 = untrack_keys removed s1;
          (active, s3) = hasActiveUndismissedOpenAlerts now s2;
          s4 = (if \<not> active then stopAlertSound s3 else s3)
      in renderTrackedList (saveTrackedSections s4))"

subsection \<open>The polling engine\<close>

text \<open>
  \<open>groups\<close> is an object keyed by roster, a colon and subject; \<open>Object.values\<close> lists
  its values in the order the keys were first added. A group holds references to the
  objects of \<open>state.trackedSections\<close>: here, their positions in that list.
\<close>

record group =
  groupRoster :: "string option"
  groupSubject :: string
  items :: "nat list"

definition groupKey :: "tracked \<Rightarrow> string" where
  "groupKey item = render (roster item) @ '':'' @ subject item"

fun add_to_group :: "string \<Rightarrow> tracked \<Rightarrow> nat \<Rightarrow> (string \<times> group) list \<Rightarrow> (string \<times> group) list" where
  "add_to_group k item i [] =
     [(k, \<lparr>groupRoster = roster item, groupSubject = subject item, items = [i]\<rparr>)]"
| "add_to_group k item i ((k', g) # gs) =
     (if k' = k then (k', g\<lparr>items := items g @ [i]\<rparr>) # gs
      else (k', g) # add_to_group k item i gs)"

fun build_groups :: "tracked list \<Rightarrow> nat \<Rightarrow> (string \<times> group) list \<Rightarrow> (string \<times> group) list" where
  "build_groups [] i gs = gs"
| "build_groups (item # rest) i gs =
     build_groups rest (Suc i) (add_to_group (groupKey item) item i gs)"

text \<open>
  \<open>statusIndex\<close>: the three nested loops over the response, a later section of the
  same class number replacing an earlier one.
\<close>

definition statusIndex_of :: "course list \<Rightarrow> (string \<rightharpoonup> string)" where
  "statusIndex_of classes =
     fold (\<lambda>crs m.
        fold (\<lambda>eg m.
           fold (\<lambda>sec m. m(string_of_nat (sec_classNbr sec) \<mapsto> sec_openStatus sec))
             (case classSections eg of None \<Rightarrow> [] | Some secs \<Rightarrow> secs) m)
          (case enrollGroups crs of None \<Rightarrow> [] | Some egs \<Rightarrow> egs) m)
       classes Map.empty"

text \<open>
  The body of the loop over \<open>group.items\<close> for the item at position \<open>i\<close>, with the
  accumulators \<open>newlyOpened\<close> (references) and \<open>updatedCount\<close>. A reference of a group
  is always a position of the list; for any other number nothing happens.
\<close>

definition refresh_item ::
  "(string \<rightharpoonup> string) \<Rightarrow> int \<Rightarrow> nat \<Rightarrow> app \<times> nat list \<times> nat \<Rightarrow> app \<times> nat list \<times> nat" where
  "refresh_item statusIndex now i acc =
     (case acc of (s, newlyOpened, updatedCount) \<Rightarrow>
        if \<not> i < length (trackedSections s) then acc
        else (let item = trackedSections s ! i in
              case statusIndex (classNbr item) of
                None \<Rightarrow> acc
              | Some newStatus \<Rightarrow>
                  (let oldStatus = lastStatus item;
                       newlyOpened' =
                         (if oldStatus \<noteq> ''O'' \<and> newStatus = ''O''
                          then newlyOpened @ [i] else newlyOpened)
                   in (s\<lparr>trackedSections :=
                           (trackedSections s)
                             [i := item\<lparr>lastStatus := newStatus, lastCheckedAt := now\<rparr>]\<rparr>,
                       newlyOpened', updatedCount + 1))))"

text \<open>One group whose fetch succeeded at clock reading \<open>now\<close> with \<open>classes\<close>.\<close>

definition refresh_group ::
  "course list \<Rightarrow> int \<Rightarrow> group \<Rightarrow> app \<times> nat list \<times> nat \<Rightarrow> app \<times> nat list \<times> nat" where
  "refresh_group classes now g acc = fold (refresh_item (statusIndex_of classes) now) (items g) acc"

text \<open>
  The loop over the groups inside \<open>try\<close>. \<open>replies j\<close> is what the \<open>j\<close>-th
  \<open>await searchClasses(...)\<close> of the tick gives and the clock reading when it does. A
  failure leaves the loop at once, with the state as it is then.
\<close>

type_synonym replies = "nat \<Rightarrow> int \<times> (error + course list)"

fun refresh_groups ::
  "replies \<Rightarrow> nat \<Rightarrow> group list \<Rightarrow> app \<times> nat list \<times> nat \<Rightarrow> error option \<times> app \<times> nat list \<times> nat" where
  "refresh_groups replies j [] acc = (None, acc)"
| "refresh_groups replies j (g # gs) acc =
     (case acc of (s, newlyOpened, updatedCount) \<Rightarrow>
        (let s1 = s\<lparr>fetchRequests :=
                      fetchRequests s @ [searchUrl (groupRoster g) (groupSubject g)]\<rparr>
         in case snd (replies j) of
              Inl err \<Rightarrow> (Some err, s1, newlyOpened, updatedCount)
            | Inr classes \<Rightarrow>
                refresh_groups replies (Suc j) gs
                  (refresh_group classes (fst (replies j)) g (s1, newlyOpened, updatedCount))))"

text \<open>The objects that a list of references denotes.\<close>

definition deref :: "tracked list \<Rightarrow> nat list \<Rightarrow> tracked list" where
  "deref ts refs = concat (map (\<lambda>i. if i < length ts then [ts ! i] else []) refs)"

text \<open>The second pass: overlays for the sections that are open already.\<close>

definition reshow_overlays :: "tracked list \<Rightarrow> app \<Rightarrow> app" where
  "reshow_overlays currentlyOpen s =
     fold (\<lambda>item s. if itemKey item \<in> set (trackedElements s)
                     then showAlertOverItem (itemKey item) s else s)
       currentlyOpen s"

text \<open>What follows the loop inside \<open>try\<close> (lines 1056 to 1087), at clock reading \<open>now\<close>.\<close>

definition refresh_finish :: "int \<Rightarrow> nat list \<Rightarrow> app \<Rightarrow> app" where
  "refresh_finish now newlyOpened s =
     (let s1 = renderTrackedList (saveTrackedSections s);
          s2 = s1\<lparr>lastUpdated := Some now, trackedStatusText := [],
                  trackedStatusClasses := trackedStatusClasses s1 - {''loading''}\<rparr>;
          activeTrackedKeys = set (map itemKey (trackedSections s2));
          actionableNewlyOpened =
            filter (\<lambda>item. itemKey item \<in> activeTrackedKeys) (deref (trackedSections s2) newlyOpened);
          s3 = (if actionableNewlyOpened \<noteq> [] then triggerOpenAlert now actionableNewlyOpened s2
                else s2);
          newlyOpenedSet = set (map itemKey actionableNewlyOpened);
          (s4, currentlyOpen) = open_undismissed now newlyOpenedSet (trackedSections s3) s3
      in reshow_overlays currentlyOpen s4)"

definition tick_groups :: "app \<Rightarrow> group list" where
  "tick_groups s = map snd (build_groups (trackedSections s) 0 [])"

text \<open>The state when the loop begins (lines 1000 to 1003).\<close>

definition tick_start :: "app \<Rightarrow> app" where
  "tick_start s =
     s\<lparr>isRefreshing := True, refreshBtnDisabled := True,
       trackedStatusText := ''Refreshing...'',
       trackedStatusClasses := insert ''loading'' (trackedStatusClasses s)\<rparr>"

text \<open>
  \<open>refreshTrackedSections()\<close>, run without another handler in between. The clock
  reading after the loop is that of the last reply.
\<close>

definition refreshTrackedSections :: "replies \<Rightarrow> app \<Rightarrow> app" where
  "refreshTrackedSections replies s =
     (if trackedSections s = [] then s\<lparr>trackedStatusText := [], trackedStatusClasses := {}\<rparr>
      else if isRefreshing s then s
      else (let s0 = tick_start s;
                gs = tick_groups s0;
                (failure, s1, newlyOpened, updatedCount) = refresh_groups replies 0 gs (s0, [], 0);
                s2 = (case failure of
                        None \<Rightarrow> refresh_finish (fst (replies (length gs - 1))) newlyOpened s1
                      | Some err \<Rightarrow>
                          s1\<lparr>trackedStatusText := getUserFriendlyError err ''Refresh'',
                             trackedStatusClasses := insert ''error'' (trackedStatusClasses s1)\<rparr>)
            in s2\<lparr>isRefreshing := False, refreshBtnDisabled := False\<rparr>))"

text \<open>The references the loop of a tick classifies as newly opened.\<close>

definition tick_newlyOpened :: "replies \<Rightarrow> app \<Rightarrow> nat list" where
  "tick_newlyOpened replies s =
     fst (snd (snd (refresh_groups replies 0 (tick_groups (tick_start s)) (tick_start s, [], 0))))"

subsection \<open>The search coordinator\<close>

text \<open>
  The pattern \<open>/^([A-Z]+)\s*(\d.*)?$/\<close> on ASCII text: letters, white space and digits
  are disjoint classes, so a match splits the text in one way only: the longest run of
  capital letters, which must not be empty, then the white space after it, and the rest
  is either empty or begins with a digit and has no line terminator after it.
\<close>

definition match_input :: "string \<Rightarrow> (string \<times> string option) option" where
  "match_input t =
     (let letters = takeWhile isUpperAZ t;
          rest = dropWhile isWhitespace (dropWhile isUpperAZ t)
      in if letters = [] then None
         else if rest = [] then Some (letters, None)
         else if isDigit (hd rest) \<and> list_all (\<lambda>c. \<not> isLineTerminator c) (tl rest)
         then Some (letters, Some rest)
         else None)"

definition parseSearchInput :: "string \<Rightarrow> string set \<Rightarrow> (string \<times> string) option" where
  "parseSearchInput input subjects =
     (let trimmed = toUpperCase (trim input) in
      if trimmed = [] then None
      else (case match_input trimmed of
              None \<Rightarrow> None
            | Some (sbj, m2) \<Rightarrow>
                (let query = (case m2 of None \<Rightarrow> [] | Some q \<Rightarrow> trim q)
                 in if sbj \<notin> subjects then None else Some (sbj, query))))"

text \<open>What a run of \<open>performSearch\<close> keeps across its \<open>await\<close>.\<close>

record pending =
  requestSeq :: nat
  normalizedInput :: string
  parsedSubject :: string
  parsedQuery :: string

definition isCurrentSearch :: "pending \<Rightarrow> app \<Rightarrow> bool" where
  "isCurrentSearch p s =
     (requestSeq p = searchRequestSeq s \<and>
      toUpperCase (trim (searchInput s)) = normalizedInput p)"

definition courseId :: "course \<Rightarrow> string" where
  "courseId crs = c_subject crs @ ''-'' @ c_catalogNbr crs"

text \<open>The end of \<open>performSearch\<close>, from line 833: the filter over the cached listing.\<close>

definition apply_filter :: "pending \<Rightarrow> app \<Rightarrow> app" where
  "apply_filter p s =
     (if \<not> isCurrentSearch p s then s
      else (let s1 = s\<lparr>searchError := None\<rparr>;
                s2 = (if parsedQuery p \<noteq> []
                      then s1\<lparr>searchResults :=
                                filter (\<lambda>crs. startsWith (c_catalogNbr crs) (parsedQuery p))
                                  (cachedClasses s1)\<rparr>
                      else s1\<lparr>searchResults := cachedClasses s1\<rparr>)
            in if length (searchResults s2) = 1
               then s2\<lparr>expandedCourses := {courseId (hd (searchResults s2))}\<rparr>
               else s2))"

text \<open>
  \<open>performSearch()\<close> up to its \<open>await\<close>: the state, and the pending run when a fetch
  was requested.
\<close>

definition performSearch :: "app \<Rightarrow> app \<times> pending option" where
  "performSearch s =
     (let inputValue = searchInput s;
          s1 = s\<lparr>searchRequestSeq := searchRequestSeq s + 1\<rparr>
      in case parseSearchInput inputValue (subjectSet s1) of
           None \<Rightarrow>
             (s1\<lparr>searchResults := [], cachedSubject := None, cachedClasses := [],
                 expandedCourses := {}, searchError := None\<rparr>, None)
         | Some (sbj, query) \<Rightarrow>
             (let p = \<lparr>requestSeq = searchRequestSeq s1,
                       normalizedInput = toUpperCase (trim inputValue),
                       parsedSubject = sbj, parsedQuery = query\<rparr>
              in if Some sbj \<noteq> cachedSubject s1
                 then (s1\<lparr>expandedCourses := {}, isSearching := True,
                          fetchRequests := fetchRequests s1 @ [searchUrl (currentRoster s1) sbj]\<rparr>,
                       Some p)
                 else (apply_filter p s1, None)))"

text \<open>\<open>performSearch()\<close> from its \<open>await\<close> on, given what \<open>searchClasses\<close> gave.\<close>

definition performSearch_resume :: "pending \<Rightarrow> error + course list \<Rightarrow> app \<Rightarrow> app" where
  "performSearch_resume p r s =
     (case r of
        Inr classes \<Rightarrow>
          if \<not> isCurrentSearch p s then s
          else (let s1 = s\<lparr>cachedClasses := classes, cachedSubject := Some (parsedSubject p)\<rparr>
                in if \<not> isCurrentSearch p s1 then s1
                   else apply_filter p (s1\<lparr>isSearching := False\<rparr>))
      | Inl err \<Rightarrow>
          if \<not> isCurrentSearch p s then s
          else s\<lparr>searchError := Some (getUserFriendlyError err ''Subject''),
                 cachedClasses := [], cachedSubject := None, searchResults := [],
                 isSearching := False\<rparr>)"

definition debounceSearch :: "app \<Rightarrow> app \<times> pending option" where
  "debounceSearch s =
     (case parseSearchInput (searchInput s) (subjectSet s) of
        None \<Rightarrow> (s\<lparr>searchDebounceTimer := True\<rparr>, None)
      | Some (sbj, query) \<Rightarrow>
          if Some sbj = cachedSubject s then performSearch (s\<lparr>searchDebounceTimer := False\<rparr>)
          else (s\<lparr>searchDebounceTimer := True\<rparr>, None))"

text \<open>The user sets the input's value; the \<open>input\<close> event runs \<open>onSearchInput\<close>.\<close>

definition onSearchInput :: "string \<Rightarrow> app \<Rightarrow> app \<times> pending option" where
  "onSearchInput txt s = debounceSearch (s\<lparr>searchInput := txt\<rparr>)"

definition debounceTimerFires :: "app \<Rightarrow> app \<times> pending option" where
  "debounceTimerFires s =
     (if searchDebounceTimer s then performSearch (s\<lparr>searchDebounceTimer := False\<rparr>)
      else (s, None))"

text \<open>
  A session of the search box: the user types, the debounce timer fires, the \<open>n\<close>-th
  fetch requested so far settles. The second component lists the pending runs in the
  order their fetches were requested.
\<close>

datatype search_event = Types string | DebounceFires | FetchSettles nat "error + course list"

fun search_step :: "app \<times> pending list \<Rightarrow> search_event \<Rightarrow> app \<times> pending list" where
  "search_step (s, ps) (Types txt) =
     (case onSearchInput txt s of (s', None) \<Rightarrow> (s', ps) | (s', Some p) \<Rightarrow> (s', ps @ [p]))"
| "search_step (s, ps) DebounceFires =
     (case debounceTimerFires s of (s', None) \<Rightarrow> (s', ps) | (s', Some p) \<Rightarrow> (s', ps @ [p]))"
| "search_step (s, ps) (FetchSettles n r) =
     (if n < length ps then (performSearch_resume (ps ! n) r s, ps) else (s, ps))"

definition search_session :: "search_event list \<Rightarrow> app \<Rightarrow> app \<times> pending list" where
  "search_session evs s = foldl search_step (s, []) evs"

subsection \<open>Sessions of the tracking store and the alerts\<close>

text \<open>
  The handlers that read or write the tracked set, as the events of a session: the
  Track button, the remove button, \<open>loadTrackedSections\<close>, a polling tick, the
  overlay's dismiss button, and the callback of an eviction timer.
\<close>

datatype action =
    Track string string string string string string string int
  | Untrack string "string option" int
  | Load
  | Tick replies
  | Dismiss string int
  | EvictionFires string

fun perform :: "app \<Rightarrow> action \<Rightarrow> app" where
  "perform s (Track n sbj cat ttl sec component st now) =
     toggleTrack n sbj cat ttl sec component st now s"
| "perform s (Untrack n r now) = untrack n r now s"
| "perform s Load = loadTrackedSections s"
| "perform s (Tick replies) = refreshTrackedSections replies s"
| "perform s (Dismiss k now) = onDismiss5min k now s"
| "perform s (EvictionFires k) = evictionTimerFires k s"

text \<open>
  The two representations of the tracked set agree, no key occurs twice, and the list
  in storage, if there is one, has no key twice either.
\<close>

definition tracking_inv :: "app \<Rightarrow> bool" where
  "tracking_inv s =
     (distinct (map itemKey (trackedSections s)) \<and>
      trackedKeySet s = set (map itemKey (trackedSections s)) \<and>
      distinct (map itemKey (case storedTracked s of None \<Rightarrow> [] | Some l \<Rightarrow> l)))"

text \<open>
  Projections that name what an operation leaves alone: the tracked set with its stored
  copy, and the sound and the notifications.
\<close>

definition tracking_part :: "app \<Rightarrow> tracked list \<times> string set \<times> tracked list option \<times> bool" where
  "tracking_part s = (trackedSections s, trackedKeySet s, storedTracked s, storageWritable s)"

definition alarm_part :: "app \<Rightarrow> nat \<times> (string \<times> string) list \<times> (string \<times> string) list \<times> bool" where
  "alarm_part s = (soundRequests s, notifyRequests s, notifications s, isAlerting s)"

text \<open>
  The step the specification describes for one tracked section, given the lookup built
  from the response: a section whose class number the lookup does not have is left as
  it is; otherwise it takes the reported status and the time of the check. It is newly
  opened when its stored status is not \<open>O\<close> and the reported one is.
\<close>

definition observe :: "(string \<rightharpoonup> string) \<Rightarrow> int \<Rightarrow> tracked \<Rightarrow> tracked" where
  "observe statusIndex now item =
     (case statusIndex (classNbr item) of
        None \<Rightarrow> item
      | Some newStatus \<Rightarrow> item\<lparr>lastStatus := newStatus, lastCheckedAt := now\<rparr>)"

definition newlyOpens :: "(string \<rightharpoonup> string) \<Rightarrow> tracked \<Rightarrow> bool" where
  "newlyOpens statusIndex item =
     (lastStatus item \<noteq> ''O'' \<and> statusIndex (classNbr item) = Some ''O'')"

text \<open>The state with the two fields blanked that the loop of a tick writes.\<close>

definition outside_tick_loop :: "app \<Rightarrow> app" where
  "outside_tick_loop s = s\<lparr>trackedSections := [], fetchRequests := []\<rparr>"

text \<open>All references held by a list of keyed groups.\<close>

definition refs_of :: "(string \<times> group) list \<Rightarrow> nat list" where
  "refs_of gs = concat (map (\<lambda>kg. items (snd kg)) gs)"

definition groupUrl :: "group \<Rightarrow> string" where
  "groupUrl g = searchUrl (groupRoster g) (groupSubject g)"

subsection \<open>Example inputs\<close>

text \<open>
  A burst: three calls at the same instant, the second of which fails. The dispatches
  begin at 5000000, 5001000 and 5002000.
\<close>

definition burst :: "(string \<times> unit call_env) list" where
  "burst =
     [(''a'', \<lparr>calledAt = 5000000, startLag = 0, timerLag = 0, latency = 40,
              outcome = Response True 200 (Envelope ''success'' None ())\<rparr>),
      (''b'', \<lparr>calledAt = 5000000, startLag = 0, timerLag = 0, latency = 40,
              outcome = Response False 500 (Unparsable [])\<rparr>),
      (''c'', \<lparr>calledAt = 5000000, startLag = 0, timerLag = 0, latency = 40,
              outcome = Response True 200 (Envelope ''success'' None ())\<rparr>)]"


text \<open>
  The state once \<open>init\<close> has loaded the roster FA25 and its subjects, with nothing
  tracked and nothing stored, and two listings of the service.
\<close>

definition loaded_app :: app where
  "loaded_app =
     (fresh_app None Map.empty)\<lparr>subjectSet := {''CS'', ''MATH''}, currentRoster := Some ''FA25''\<rparr>"

definition cs_listing :: "course list" where
  "cs_listing =
     [\<lparr>c_subject = ''CS'', c_catalogNbr = ''2110'', c_titleShort = ''OO Programming'',
       enrollGroups = Some [\<lparr>classSections = Some
         [\<lparr>sec_classNbr = 1234, sec_openStatus = ''C'', sec_section = ''001'',
           sec_ssrComponent = ''LEC''\<rparr>]\<rparr>]\<rparr>,
      \<lparr>c_subject = ''CS'', c_catalogNbr = ''3110'', c_titleShort = ''Functional Programming'',
       enrollGroups = Some [\<lparr>classSections = Some
         [\<lparr>sec_classNbr = 1300, sec_openStatus = ''O'', sec_section = ''001'',
           sec_ssrComponent = ''LEC''\<rparr>]\<rparr>]\<rparr>]"

definition math_listing :: "course list" where
  "math_listing =
     [\<lparr>c_subject = ''MATH'', c_catalogNbr = ''1920'', c_titleShort = ''Multivariable Calculus'',
       enrollGroups = Some [\<lparr>classSections = Some
         [\<lparr>sec_classNbr = 5678, sec_openStatus = ''W'', sec_section = ''001'',
           sec_ssrComponent = ''LEC''\<rparr>]\<rparr>]\<rparr>]"

text \<open>The state once the listing for CS has been fetched and cached.\<close>

definition cs_cached_app :: app where
  "cs_cached_app =
     fst (search_session [Types ''CS'', DebounceFires, FetchSettles 0 (Inr cs_listing)] loaded_app)"

text \<open>The pending run of a search for CS that was the first search of the session.\<close>

definition cs_pending :: pending where
  "cs_pending = \<lparr>requestSeq = 1, normalizedInput = ''CS'', parsedSubject = ''CS'', parsedQuery = []\<rparr>"

text \<open>The four tracked sections of the example, as stored when they were tracked.\<close>

definition item_1234 :: tracked where
  "item_1234 = \<lparr>classNbr = ''1234'', roster = Some ''FA25'', subject = ''CS'',
     catalogNbr = ''2110'', title = ''OO Programming'', sectionName = ''001'',
     ssrComponent = ''LEC'', lastStatus = ''C'', lastCheckedAt = 100\<rparr>"

definition item_1300 :: tracked where
  "item_1300 = \<lparr>classNbr = ''1300'', roster = Some ''FA25'', subject = ''CS'',
     catalogNbr = ''3110'', title = ''Functional Programming'', sectionName = ''001'',
     ssrComponent = ''LEC'', lastStatus = ''O'', lastCheckedAt = 200\<rparr>"

definition item_5678 :: tracked where
  "item_5678 = \<lparr>classNbr = ''5678'', roster = Some ''FA25'', subject = ''MATH'',
     catalogNbr = ''1920'', title = ''Multivariable Calculus'', sectionName = ''001'',
     ssrComponent = ''LEC'', lastStatus = ''W'', lastCheckedAt = 300\<rparr>"

definition item_9999 :: tracked where
  "item_9999 = \<lparr>classNbr = ''9999'', roster = Some ''FA25'', subject = ''CS'',
     catalogNbr = ''4999'', title = ''Project'', sectionName = ''001'',
     ssrComponent = ''IND'', lastStatus = ''C'', lastCheckedAt = 400\<rparr>"

text \<open>
  Four sections tracked from the loaded state: two of CS whose class numbers the CS
  listing has (one stored closed, one stored open), one of MATH, and one of CS that no
  listing has. The CS listing of a later poll reports both known sections open.
\<close>

definition tracked_app :: app where
  "tracked_app =
     foldl perform loaded_app
       [Track ''1234'' ''CS'' ''2110'' ''OO Programming'' ''001'' ''LEC'' ''C'' 100,
        Track ''1300'' ''CS'' ''3110'' ''Functional Programming'' ''001'' ''LEC'' ''O'' 200,
        Track ''5678'' ''MATH'' ''1920'' ''Multivariable Calculus'' ''001'' ''LEC'' ''W'' 300,
        Track ''9999'' ''CS'' ''4999'' ''Project'' ''001'' ''IND'' ''C'' 400]"

definition cs_listing_open :: "course list" where
  "cs_listing_open =
     [\<lparr>c_subject = ''CS'', c_catalogNbr = ''2110'', c_titleShort = ''OO Programming'',
       enrollGroups = Some [\<lparr>classSections = Some
         [\<lparr>sec_classNbr = 1234, sec_openStatus = ''O'', sec_section = ''001'',
           sec_ssrComponent = ''LEC''\<rparr>]\<rparr>]\<rparr>,
      \<lparr>c_subject = ''CS'', c_catalogNbr = ''3110'', c_titleShort = ''Functional Programming'',
       enrollGroups = Some [\<lparr>classSections = Some
         [\<lparr>sec_classNbr = 1300, sec_openStatus = ''O'', sec_section = ''001'',
           sec_ssrComponent = ''LEC''\<rparr>]\<rparr>]\<rparr>]"

text \<open>A tick whose first fetch (CS) succeeds at 5000 and whose second (MATH) fails.\<close>

definition failing_replies :: replies where
  "failing_replies j =
     (if j = 0 then (5000, Inr cs_listing_open) else (6000, Inl (Error ''Failed to fetch'')))"

text \<open>A tick whose fetches all succeed.\<close>

definition good_replies :: replies where
  "good_replies j = (if j = 0 then (5000, Inr cs_listing_open) else (6000, Inr math_listing))"

definition cs_group :: group where
  "cs_group = \<lparr>groupRoster = Some ''FA25'', groupSubject = ''CS'', items = [0, 1, 3]\<rparr>"

text \<open>
  A page load in a browser whose storage holds one tracked section, stored open, and no
  dismissal: the state after \<open>loadTrackedSections\<close>.
\<close>

definition reloaded_app :: app where
  "reloaded_app = loadTrackedSections (fresh_app (Some [item_1300]) Map.empty)"

text \<open>
  One section tracked while closed, and a tick whose only fetch reports it open.
\<close>

definition one_closed_app :: app where
  "one_closed_app =
     perform loaded_app (Track ''1234'' ''CS'' ''2110'' ''OO Programming'' ''001'' ''LEC'' ''C'' 100)"

definition opening_replies :: replies where
  "opening_replies j = (5000, Inr cs_listing_open)"

text \<open>
  A section tracked while open and its alert dismissed at 1000 s; the section is then
  untracked and tracked again, still open. The second dismissal comes at 1270 s, four
  and a half minutes after the first. Clock readings are in milliseconds.
\<close>

definition retracked_app :: app where
  "retracked_app =
     foldl perform loaded_app
       [Track ''1300'' ''CS'' ''3110'' ''Functional Programming'' ''001'' ''LEC'' ''O'' 900000,
        Dismiss ''FA25:1300'' 1000000,
        Untrack ''1300'' (Some ''FA25'') 1100000,
        Track ''1300'' ''CS'' ''3110'' ''Functional Programming'' ''001'' ''LEC'' ''O'' 1200000]"

definition redismissed_app :: app where
  "redismissed_app = perform retracked_app (Dismiss ''FA25:1300'' 1270000)"

section \<open>Properties of the request scheduler\<close>

lemma spaced_snoc:
  "spaced (ds @ [d]) =
     (spaced ds \<and> (ds = [] \<or> dispatchedAt (last ds) + RATE_LIMIT_MS \<le> dispatchedAt d))"
  by (induction ds rule: spaced.induct) auto

lemma serial_snoc:
  "serial (ds @ [d]) = (serial ds \<and> (ds = [] \<or> completedAt (last ds) \<le> dispatchedAt d))"
  by (induction ds rule: serial.induct) auto

lemma init_sched_inv: "sched_inv init_sched"
  by (simp add: sched_inv_def init_sched_def)

lemma rateLimitedFetch_dispatches:
  "map url (dispatches (snd (rateLimitedFetch u env s))) = map url (dispatches s) @ [u]"
  by (simp add: rateLimitedFetch_def task_def Let_def split: sum.splits)

lemma rateLimitedFetch_inv:
  "sched_inv s \<Longrightarrow> sched_inv (snd (rateLimitedFetch u env s))"
  by (auto simp: sched_inv_def rateLimitedFetch_def task_def Let_def catch_ignore_def
        spaced_snoc serial_snoc RATE_LIMIT_MS_def split: sum.splits)

lemma submit_all_inv:
  "sched_inv s \<Longrightarrow> sched_inv (snd (submit_all cs s))"
proof (induction cs arbitrary: s)
  case Nil
  then show ?case by simp
next
  case (Cons c cs)
  obtain u env where c: "c = (u, env)" by (cases c)
  have "sched_inv (snd (rateLimitedFetch u env s))"
    using Cons.prems by (rule rateLimitedFetch_inv)
  then have "sched_inv (snd (submit_all cs (snd (rateLimitedFetch u env s))))"
    by (rule Cons.IH)
  then show ?case
    by (simp add: c case_prod_beta)
qed

lemma submit_all_urls:
  "map url (dispatches (snd (submit_all cs s))) = map url (dispatches s) @ map fst cs"
proof (induction cs arbitrary: s)
  case Nil
  then show ?case by simp
next
  case (Cons c cs)
  obtain u env where c: "c = (u, env)" by (cases c)
  have "map url (dispatches (snd (submit_all cs (snd (rateLimitedFetch u env s))))) =
        map url (dispatches (snd (rateLimitedFetch u env s))) @ map fst cs"
    by (rule Cons.IH)
  then show ?case
    by (simp add: c rateLimitedFetch_dispatches case_prod_beta)
qed

lemma rateLimitedFetch_settlement:
  "settlement (fst (rateLimitedFetch u env s)) = fetch_result (outcome env)"
  by (simp add: rateLimitedFetch_def task_def Let_def split: sum.splits)

lemma rateLimitedFetch_queue:
  "settlement (requestQueue (snd (rateLimitedFetch u env s))) = Inr ()"
  by (simp add: rateLimitedFetch_def task_def Let_def catch_ignore_def split: sum.splits)

lemma submit_all_settlements:
  "map settlement (fst (submit_all cs s)) = map (\<lambda>c. fetch_result (outcome (snd c))) cs"
proof (induction cs arbitrary: s)
  case Nil
  then show ?case by simp
next
  case (Cons c cs)
  obtain u env where c: "c = (u, env)" by (cases c)
  show ?case
    by (simp add: c case_prod_beta rateLimitedFetch_settlement Cons.IH)
qed

lemma submit_all_queue:
  "settlement (requestQueue s) = Inr () \<Longrightarrow>
   settlement (requestQueue (snd (submit_all cs s))) = Inr ()"
proof (induction cs arbitrary: s)
  case Nil
  then show ?case by simp
next
  case (Cons c cs)
  obtain u env where c: "c = (u, env)" by (cases c)
  have "settlement (requestQueue (snd (submit_all cs (snd (rateLimitedFetch u env s))))) = Inr ()"
    by (rule Cons.IH) (rule rateLimitedFetch_queue)
  then show ?case
    by (simp add: c case_prod_beta)
qed

lemma submit_all_append:
  "submit_all (cs @ ds) s =
     (fst (submit_all cs s) @ fst (submit_all ds (snd (submit_all cs s))),
      snd (submit_all ds (snd (submit_all cs s))))"
proof (induction cs arbitrary: s)
  case Nil
  then show ?case by simp
next
  case (Cons c cs)
  obtain u env where c: "c = (u, env)" by (cases c)
  show ?case
    by (simp add: c case_prod_beta Cons.IH)
qed

text \<open>
  C1. Whatever calls of \<open>rateLimitedFetch\<close> are made, at whatever instants (all at once
  included) and whatever the delays and answers of the environment: the fetches are
  dispatched in the order of the calls, a fetch is dispatched only after the task before it
  has settled, and two consecutive dispatches begin at least \<open>RATE_LIMIT_MS\<close> = 1000 ms
  apart.
\<close>

theorem scheduler_order_serial_spacing:
  "map url (dispatches (snd (submit_all cs init_sched))) = map fst cs \<and>
   serial (dispatches (snd (submit_all cs init_sched))) \<and>
   spaced (dispatches (snd (submit_all cs init_sched))) \<and>
   RATE_LIMIT_MS = 1000"
proof -
  have "sched_inv (snd (submit_all cs init_sched))"
    using init_sched_inv by (rule submit_all_inv)
  moreover have "map url (dispatches (snd (submit_all cs init_sched))) = map fst cs"
    by (simp add: submit_all_urls init_sched_def)
  ultimately show ?thesis
    by (simp add: sched_inv_def RATE_LIMIT_MS_def)
qed

lemma burst_dispatches:
  "dispatches (snd (submit_all burst init_sched)) =
     [\<lparr>url = ''a'', dispatchedAt = 5000000, completedAt = 5000040\<rparr>,
      \<lparr>url = ''b'', dispatchedAt = 5001000, completedAt = 5001040\<rparr>,
      \<lparr>url = ''c'', dispatchedAt = 5002000, completedAt = 5002040\<rparr>]"
  by (simp add: burst_def init_sched_def rateLimitedFetch_def task_def catch_ignore_def
        Let_def RATE_LIMIT_MS_def)

theorem scheduler_order_serial_spacing_witness:
  "map url (dispatches (snd (submit_all burst init_sched))) = [''a'', ''b'', ''c''] \<and>
   serial (dispatches (snd (submit_all burst init_sched))) \<and>
   spaced (dispatches (snd (submit_all burst init_sched)))"
  using scheduler_order_serial_spacing [of burst]
  by (simp add: burst_def)

text \<open>
  C7. When a task fails, its error settles the promise returned to its own caller and no
  other: every caller gets the result of its own fetch. The tasks submitted after the
  failing one are all dispatched, in order, and the queue itself is never rejected.
\<close>

theorem failing_task_does_not_halt_queue:
  assumes "fetch_result (outcome envF) = Inl e"
  shows "map settlement (fst (submit_all (pre @ (u, envF) # post) s)) =
           map (\<lambda>c. fetch_result (outcome (snd c))) pre @ Inl e #
           map (\<lambda>c. fetch_result (outcome (snd c))) post \<and>
         map url (dispatches (snd (submit_all (pre @ (u, envF) # post) s))) =
           map url (dispatches s) @ map fst pre @ u # map fst post \<and>
         settlement (requestQueue (snd (submit_all (pre @ (u, envF) # post) s))) = Inr ()"
proof -
  let ?cs = "pre @ (u, envF) # post"
  have 1: "map settlement (fst (submit_all ?cs s)) =
             map (\<lambda>c. fetch_result (outcome (snd c))) pre @ Inl e #
             map (\<lambda>c. fetch_result (outcome (snd c))) post"
    using assms by (simp add: submit_all_settlements)
  have 2: "map url (dispatches (snd (submit_all ?cs s))) =
             map url (dispatches s) @ map fst pre @ u # map fst post"
    by (simp add: submit_all_urls)
  have "settlement (requestQueue (snd (rateLimitedFetch u envF (snd (submit_all pre s))))) = Inr ()"
    by (rule rateLimitedFetch_queue)
  then have 3: "settlement (requestQueue (snd (submit_all ?cs s))) = Inr ()"
    by (simp add: submit_all_append case_prod_beta submit_all_queue)
  from 1 2 3 show ?thesis by simp
qed

theorem failing_task_does_not_halt_queue_witness:
  "fetch_result (Response False 500 (Unparsable [])) = (Inl (Error ''API error: 500'') :: error + unit) \<and>
   map settlement (fst (submit_all burst init_sched)) =
     [Inr (), Inl (Error ''API error: 500''), Inr ()] \<and>
   map url (dispatches (snd (submit_all burst init_sched))) = [''a'', ''b'', ''c''] \<and>
   settlement (requestQueue (snd (submit_all burst init_sched))) = Inr ()"
proof -
  have h: "fetch_result (outcome \<lparr>calledAt = 5000000, startLag = 0, timerLag = 0, latency = 40,
              outcome = (Response False 500 (Unparsable []) :: unit http_outcome)\<rparr>) =
           Inl (Error ''API error: 500'')"
    by (simp add: fetch_result_def) code_simp
  show ?thesis
    using h failing_task_does_not_halt_queue [OF h, of "[hd burst]" "''b''" "[last burst]" init_sched]
    by (simp add: burst_def init_sched_def fetch_result_def)
qed

section \<open>Properties of the alert suppression registry\<close>

lemma saveDismissedAlerts_dismissed [simp]:
  "dismissedAlerts (saveDismissedAlerts s) = dismissedAlerts s"
  by (simp add: saveDismissedAlerts_def)

lemma stopAlertSound_dismissed [simp]:
  "dismissedAlerts (stopAlertSound s) = dismissedAlerts s"
  by (simp add: stopAlertSound_def)

lemma isAlertDismissed_keeps:
  "dismissedAlerts s k = Some e \<Longrightarrow> now \<le> e \<Longrightarrow>
   dismissedAlerts (snd (isAlertDismissed k' now s)) k = Some e"
  by (auto simp: isAlertDismissed_def split: option.splits)

lemma some_active_keeps:
  "dismissedAlerts s k = Some e \<Longrightarrow> now \<le> e \<Longrightarrow>
   dismissedAlerts (snd (some_active now ts s)) k = Some e"
proof (induction ts arbitrary: s)
  case Nil
  then show ?case by simp
next
  case (Cons item rest)
  have keep: "dismissedAlerts (snd (isAlertDismissed (itemKey item) now s)) k = Some e"
    using Cons.prems by (rule isAlertDismissed_keeps)
  show ?case
  proof (cases "lastStatus item = ''O''")
    case True
    then show ?thesis
      using keep Cons.IH [OF keep Cons.prems(2)]
      by (simp add: case_prod_beta)
  next
    case False
    then show ?thesis
      using Cons.IH [OF Cons.prems] by simp
  qed
qed

lemma dismiss_records_expiration:
  "dismissedAlerts (dismissAlertFor5Minutes k T s) k = Some (T + 300000)"
proof -
  let ?s2 = "saveDismissedAlerts (s\<lparr>dismissedAlerts := (dismissedAlerts s)(k \<mapsto> T + 300000)\<rparr>)"
  have "dismissedAlerts ?s2 k = Some (T + 300000)" by simp
  then have "dismissedAlerts (snd (some_active T (trackedSections ?s2) ?s2)) k = Some (T + 300000)"
    by (rule some_active_keeps) simp
  then show ?thesis
    by (simp add: dismissAlertFor5Minutes_def hasActiveUndismissedOpenAlerts_def
          case_prod_beta Let_def)
qed

lemma isAlertDismissed_timers:
  "evictionTimers (snd (isAlertDismissed k' now s)) = evictionTimers s"
  by (simp add: isAlertDismissed_def saveDismissedAlerts_def split: option.splits)

lemma some_active_timers:
  "evictionTimers (snd (some_active now ts s)) = evictionTimers s"
proof (induction ts arbitrary: s)
  case Nil
  then show ?case by simp
next
  case (Cons item rest)
  show ?case
    using Cons.IH [of s] Cons.IH [of "snd (isAlertDismissed (itemKey item) now s)"]
      isAlertDismissed_timers [of "itemKey item" now s]
    by (simp add: case_prod_beta)
qed

lemma dismiss_registers_timer:
  "evictionTimers (dismissAlertFor5Minutes k T s) = evictionTimers s @ [(k, T + 300000)]"
proof -
  let ?s2 = "saveDismissedAlerts (s\<lparr>dismissedAlerts := (dismissedAlerts s)(k \<mapsto> T + 300000)\<rparr>)"
  have "evictionTimers (snd (some_active T (trackedSections ?s2) ?s2)) = evictionTimers ?s2"
    by (rule some_active_timers)
  moreover have "evictionTimers ?s2 = evictionTimers s"
    by (simp add: saveDismissedAlerts_def)
  ultimately show ?thesis
    by (simp add: dismissAlertFor5Minutes_def hasActiveUndismissedOpenAlerts_def
          case_prod_beta Let_def stopAlertSound_def)
qed

text \<open>
  The callback of the eviction timer removes the entry its key has when it fires,
  whatever that entry's expiration. No timer is ever cancelled, so after a section is
  untracked, tracked again and dismissed again, the timer of the first dismissal, when
  it fires, removes the entry of the second one as well.
\<close>

lemma evictionTimerFires_clears:
  "dismissedAlerts (evictionTimerFires k s) k = None"
  by (simp add: evictionTimerFires_def)

lemma query_after_eviction_timer:
  "isAlertDismissed k now (evictionTimerFires k s) = (False, evictionTimerFires k s)"
  by (simp add: isAlertDismissed_def evictionTimerFires_clears)

lemma earlier_timer_ends_dismissal:
  "fst (isAlertDismissed k (T + 60 * 1000)
          (evictionTimerFires k (dismissAlertFor5Minutes k T s))) = False"
  by (simp add: query_after_eviction_timer)

text \<open>
  The query applied to the state a dismissal at \<open>T\<close> leaves, with no event between the
  two: the registry holds the expiration \<open>T\<close> + 5 min for the key; with the clock at
  \<open>T\<close> + 1 min \<open>isAlertDismissed\<close> answers true and changes nothing; with the clock at
  \<open>T\<close> + 6 min it answers false, and the state it leaves is the one with the entry
  deleted and the map saved. At any clock reading \<open>now\<close> the answer is true exactly when
  \<open>now\<close> is not past the expiration. The one timer the dismissal registers is due at
  the expiration. The timers that are pending when the dismissal is made are not part
  of this statement.
\<close>

lemma query_on_dismissal_state:
  "dismissedAlerts (dismissAlertFor5Minutes k T s) k = Some (T + 5 * 60 * 1000) \<and>
   isAlertDismissed k (T + 60 * 1000) (dismissAlertFor5Minutes k T s) =
     (True, dismissAlertFor5Minutes k T s) \<and>
   isAlertDismissed k (T + 6 * 60 * 1000) (dismissAlertFor5Minutes k T s) =
     (False, saveDismissedAlerts
        ((dismissAlertFor5Minutes k T s)
           \<lparr>dismissedAlerts := (dismissedAlerts (dismissAlertFor5Minutes k T s))(k := None)\<rparr>)) \<and>
   dismissedAlerts (snd (isAlertDismissed k (T + 6 * 60 * 1000) (dismissAlertFor5Minutes k T s))) k
     = None \<and>
   fst (isAlertDismissed k now (dismissAlertFor5Minutes k T s)) = (now \<le> T + 5 * 60 * 1000) \<and>
   evictionTimers (dismissAlertFor5Minutes k T s) = evictionTimers s @ [(k, T + 5 * 60 * 1000)]"
  by (simp add: isAlertDismissed_def dismiss_records_expiration dismiss_registers_timer)

text \<open>
  C8. A dismissal at \<open>T\<close> is to suppress its key until \<open>T\<close> + 5 min. The code does not
  do so in the session of \<open>retracked_app\<close> and \<open>redismissed_app\<close>. The section
  FA25:1300 is tracked while open and its alert is dismissed at 1000 s, which registers
  a timer due at 1300 s. The section is untracked, which deletes the entry but leaves
  the timer, and tracked again: the overlay is back, the registry has no entry for the
  key, and the timer is still pending. The second dismissal, at \<open>T\<close> = 1270 s, records
  the expiration 1570 s and registers a second timer. Queried at \<open>T\<close> + 1 min = 1330 s
  on that state, \<open>isAlertDismissed\<close> would answer true. But the first timer is due at
  1300 s, before the query: its callback deletes the entry of the second dismissal, in
  memory and in storage, and the query at 1330 s answers false, four minutes before
  the expiration that was recorded. A query at \<open>T\<close> + 6 min = 1630 s answers false on
  each path: it evicts the entry itself when no timer has fired, and finds no entry
  once one has.
\<close>

theorem stale_timer_ends_second_dismissal:
  "trackedKeySet retracked_app = {''FA25:1300''} \<and>
   ''FA25:1300'' \<in> alertOverlays retracked_app \<and>
   dismissedAlerts retracked_app ''FA25:1300'' = None \<and>
   evictionTimers retracked_app = [(''FA25:1300'', 1300000)] \<and>
   dismissedAlerts redismissed_app ''FA25:1300'' = Some 1570000 \<and>
   storedDismissed redismissed_app ''FA25:1300'' = Some 1570000 \<and>
   evictionTimers redismissed_app = [(''FA25:1300'', 1300000), (''FA25:1300'', 1570000)] \<and>
   fst (isAlertDismissed ''FA25:1300'' 1330000 redismissed_app) = True \<and>
   dismissedAlerts (perform redismissed_app (EvictionFires ''FA25:1300'')) ''FA25:1300'' = None \<and>
   storedDismissed (perform redismissed_app (EvictionFires ''FA25:1300'')) ''FA25:1300'' = None \<and>
   fst (isAlertDismissed ''FA25:1300'' 1330000
          (perform redismissed_app (EvictionFires ''FA25:1300''))) = False \<and>
   fst (isAlertDismissed ''FA25:1300'' 1630000 redismissed_app) = False \<and>
   dismissedAlerts (snd (isAlertDismissed ''FA25:1300'' 1630000 redismissed_app))
     ''FA25:1300'' = None \<and>
   fst (isAlertDismissed ''FA25:1300'' 1630000
          (perform (perform redismissed_app (EvictionFires ''FA25:1300''))
             (EvictionFires ''FA25:1300''))) = False"
  by code_simp

section \<open>Properties of the search coordinator\<close>

lemmas text_defs =
  toUpperCase_def trim_def upperChar_def isWhitespace_def isUpperAZ_def isDigit_def
  isLineTerminator_def

lemma normal_CS: "toUpperCase (trim ''CS'') = ''CS''"
  by (simp add: text_defs)

lemma normal_CS2110: "toUpperCase (trim ''CS2110'') = ''CS2110''"
  by (simp add: text_defs)

lemma normal_MATH: "toUpperCase (trim ''MATH'') = ''MATH''"
  by (simp add: text_defs)

lemma parse_CS: "parseSearchInput ''CS'' {''CS'', ''MATH''} = Some (''CS'', [])"
  by (simp add: parseSearchInput_def match_input_def text_defs)

lemma parse_CS2110: "parseSearchInput ''CS2110'' {''CS'', ''MATH''} = Some (''CS'', ''2110'')"
  by (simp add: parseSearchInput_def match_input_def text_defs)

lemma parse_MATH: "parseSearchInput ''MATH'' {''CS'', ''MATH''} = Some (''MATH'', [])"
  by (simp add: parseSearchInput_def match_input_def text_defs)

lemmas session_defs =
  search_session_def onSearchInput_def debounceSearch_def debounceTimerFires_def
  performSearch_def performSearch_resume_def apply_filter_def isCurrentSearch_def
  loaded_app_def fresh_app_def Let_def

lemmas parse_simps =
  normal_CS normal_CS2110 normal_MATH parse_CS parse_CS2110 parse_MATH

lemma session_CS_requested:
  "search_session [Types ''CS'', DebounceFires] loaded_app =
     (loaded_app\<lparr>searchInput := ''CS'', searchRequestSeq := 1, isSearching := True,
        fetchRequests := [searchUrl (Some ''FA25'') ''CS'']\<rparr>,
      [\<lparr>requestSeq = 1, normalizedInput = ''CS'', parsedSubject = ''CS'', parsedQuery = []\<rparr>])"
  by (simp add: session_defs parse_simps)

lemma session_CS2110_before_completion:
  "search_session [Types ''CS'', DebounceFires, Types ''CS2110''] loaded_app =
     (loaded_app\<lparr>searchInput := ''CS2110'', searchRequestSeq := 1, isSearching := True,
        searchDebounceTimer := True,
        fetchRequests := [searchUrl (Some ''FA25'') ''CS'']\<rparr>,
      [\<lparr>requestSeq = 1, normalizedInput = ''CS'', parsedSubject = ''CS'', parsedQuery = []\<rparr>])"
  by (simp add: session_defs parse_simps)

lemma session_CS2110_second_fetch:
  "search_session [Types ''CS'', DebounceFires, Types ''CS2110'', DebounceFires] loaded_app =
     (loaded_app\<lparr>searchInput := ''CS2110'', searchRequestSeq := 2, isSearching := True,
        fetchRequests := [searchUrl (Some ''FA25'') ''CS'', searchUrl (Some ''FA25'') ''CS'']\<rparr>,
      [\<lparr>requestSeq = 1, normalizedInput = ''CS'', parsedSubject = ''CS'', parsedQuery = []\<rparr>,
       \<lparr>requestSeq = 2, normalizedInput = ''CS2110'', parsedSubject = ''CS'',
          parsedQuery = ''2110''\<rparr>])"
  by (simp add: session_defs parse_simps)

lemma session_CS2110_first_reply_discarded:
  "search_session
     [Types ''CS'', DebounceFires, Types ''CS2110'', FetchSettles 0 (Inr cs_listing)] loaded_app =
   search_session [Types ''CS'', DebounceFires, Types ''CS2110''] loaded_app"
  by (simp add: session_defs parse_simps)

lemma getUserFriendlyError_nonempty:
  "ctxt \<noteq> [] \<Longrightarrow> getUserFriendlyError err ctxt \<noteq> []"
  by (simp add: getUserFriendlyError_def Let_def)

lemma cs_cached_app_eq:
  "cs_cached_app =
     loaded_app\<lparr>searchInput := ''CS'', searchRequestSeq := 1,
        fetchRequests := [searchUrl (Some ''FA25'') ''CS''],
        cachedSubject := Some ''CS'', cachedClasses := cs_listing, searchResults := cs_listing\<rparr>"
  by (simp add: cs_cached_app_def session_defs parse_simps cs_listing_def)

text \<open>
  C2. When the result of a search fetch returns, with \<open>p\<close> what the run kept across its
  \<open>await\<close>: if the sequence number of the run is no longer the latest issued, or the
  normalized input is no longer the one that triggered the run, the state stays exactly
  as it is, whether the fetch succeeded or failed; if both still hold, a successful
  listing becomes the cache and the displayed results are filtered from it.
\<close>

theorem stale_search_result_is_discarded:
  "(\<not> (requestSeq p = searchRequestSeq s \<and>
        toUpperCase (trim (searchInput s)) = normalizedInput p)
      \<longrightarrow> performSearch_resume p r s = s) \<and>
   (requestSeq p = searchRequestSeq s \<and> toUpperCase (trim (searchInput s)) = normalizedInput p
      \<longrightarrow> cachedSubject (performSearch_resume p (Inr classes) s) = Some (parsedSubject p) \<and>
          cachedClasses (performSearch_resume p (Inr classes) s) = classes \<and>
          searchResults (performSearch_resume p (Inr classes) s) =
            (if parsedQuery p \<noteq> []
             then filter (\<lambda>crs. startsWith (c_catalogNbr crs) (parsedQuery p)) classes
             else classes) \<and>
          \<not> isSearching (performSearch_resume p (Inr classes) s) \<and>
          searchError (performSearch_resume p (Inr classes) s) = None)"
  by (cases r) (simp_all add: performSearch_resume_def isCurrentSearch_def apply_filter_def Let_def)

theorem stale_search_result_is_discarded_witness:
  "requestSeq cs_pending = searchRequestSeq (fst (search_session [Types ''CS'', DebounceFires] loaded_app)) \<and>
   cachedSubject (performSearch_resume cs_pending (Inr cs_listing)
      (fst (search_session [Types ''CS'', DebounceFires] loaded_app))) = Some ''CS'' \<and>
   toUpperCase (trim (searchInput
      (fst (search_session [Types ''CS'', DebounceFires, Types ''MATH''] loaded_app))))
     \<noteq> normalizedInput cs_pending \<and>
   performSearch_resume cs_pending (Inr cs_listing)
      (fst (search_session [Types ''CS'', DebounceFires, Types ''MATH''] loaded_app)) =
   fst (search_session [Types ''CS'', DebounceFires, Types ''MATH''] loaded_app)"
proof -
  let ?cur = "fst (search_session [Types ''CS'', DebounceFires] loaded_app)"
  let ?stale = "fst (search_session [Types ''CS'', DebounceFires, Types ''MATH''] loaded_app)"
  have cur: "requestSeq cs_pending = searchRequestSeq ?cur \<and>
             toUpperCase (trim (searchInput ?cur)) = normalizedInput cs_pending"
    by (simp add: session_CS_requested cs_pending_def parse_simps)
  have stale: "toUpperCase (trim (searchInput ?stale)) \<noteq> normalizedInput cs_pending"
    by (simp add: session_defs parse_simps cs_pending_def)
  show ?thesis
    using cur stale
      stale_search_result_is_discarded [of cs_pending ?cur "Inr cs_listing" cs_listing]
      stale_search_result_is_discarded [of cs_pending ?stale "Inr cs_listing" cs_listing]
    by (simp add: cs_pending_def)
qed

text \<open>
  C5, as the claim states it, fails. After \<open>CS\<close> has been typed and its fetch requested,
  the cache is still empty. \<open>CS2110\<close> typed then is not served from the cache: the
  debounce timer is armed and the results stay empty; when the timer fires a second
  fetch for CS is requested. This is so whether or not the first fetch settles in
  between, since its listing is discarded as stale.
\<close>

theorem second_input_before_completion_counterexample:
  "fetchRequests (fst (search_session [Types ''CS'', DebounceFires] loaded_app)) =
     [searchUrl (Some ''FA25'') ''CS''] \<and>
   cachedSubject (fst (search_session [Types ''CS'', DebounceFires] loaded_app)) = None \<and>
   searchDebounceTimer
     (fst (search_session [Types ''CS'', DebounceFires, Types ''CS2110''] loaded_app)) \<and>
   searchResults
     (fst (search_session [Types ''CS'', DebounceFires, Types ''CS2110''] loaded_app)) = [] \<and>
   fetchRequests
     (fst (search_session [Types ''CS'', DebounceFires, Types ''CS2110'', DebounceFires]
            loaded_app)) =
     [searchUrl (Some ''FA25'') ''CS'', searchUrl (Some ''FA25'') ''CS''] \<and>
   fetchRequests
     (fst (search_session
            [Types ''CS'', DebounceFires, Types ''CS2110'', FetchSettles 0 (Inr cs_listing),
             DebounceFires] loaded_app)) =
     [searchUrl (Some ''FA25'') ''CS'', searchUrl (Some ''FA25'') ''CS'']"
  by (simp add: session_defs parse_simps)

text \<open>
  C5, amended. When the subject parsed from the input equals the cached subject, the
  input event itself filters the cached listing by the catalog-number prefix: no fetch
  is requested, no run is left pending, the debounce timer is not armed, and the cache
  is unchanged.
\<close>

theorem cached_subject_input_is_local_filter:
  assumes "cachedSubject s = Some sbj"
    and "parseSearchInput txt (subjectSet s) = Some (sbj, q)"
  shows "snd (onSearchInput txt s) = None \<and>
         fetchRequests (fst (onSearchInput txt s)) = fetchRequests s \<and>
         \<not> searchDebounceTimer (fst (onSearchInput txt s)) \<and>
         searchResults (fst (onSearchInput txt s)) =
           (if q \<noteq> [] then filter (\<lambda>crs. startsWith (c_catalogNbr crs) q) (cachedClasses s)
            else cachedClasses s) \<and>
         cachedSubject (fst (onSearchInput txt s)) = Some sbj \<and>
         cachedClasses (fst (onSearchInput txt s)) = cachedClasses s \<and>
         searchError (fst (onSearchInput txt s)) = None"
  using assms
  by (simp add: onSearchInput_def debounceSearch_def performSearch_def apply_filter_def
        isCurrentSearch_def Let_def)

theorem cached_subject_input_is_local_filter_witness:
  "cachedSubject cs_cached_app = Some ''CS'' \<and>
   parseSearchInput ''CS2110'' (subjectSet cs_cached_app) = Some (''CS'', ''2110'') \<and>
   snd (onSearchInput ''CS2110'' cs_cached_app) = None \<and>
   fetchRequests (fst (onSearchInput ''CS2110'' cs_cached_app)) = [searchUrl (Some ''FA25'') ''CS''] \<and>
   \<not> searchDebounceTimer (fst (onSearchInput ''CS2110'' cs_cached_app)) \<and>
   searchResults (fst (onSearchInput ''CS2110'' cs_cached_app)) = [hd cs_listing]"
proof -
  have h1: "cachedSubject cs_cached_app = Some ''CS''"
    by (simp add: cs_cached_app_eq)
  have h2: "parseSearchInput ''CS2110'' (subjectSet cs_cached_app) = Some (''CS'', ''2110'')"
    by (simp add: cs_cached_app_eq loaded_app_def fresh_app_def parse_simps)
  show ?thesis
    using h1 h2 cached_subject_input_is_local_filter [OF h1 h2]
    by (simp add: cs_cached_app_eq cs_listing_def startsWith_def)
qed

text \<open>
  C6, as the claim states it, fails. With the listing for MATH cached, a search for CS
  whose fetch fails while its run is still current leaves no cached subject and an empty
  cached listing.
\<close>

theorem failed_search_keeps_cache_counterexample:
  "cachedSubject
     (fst (search_session
       [Types ''MATH'', DebounceFires, FetchSettles 0 (Inr math_listing), Types ''CS'',
        DebounceFires] loaded_app)) = Some ''MATH'' \<and>
   cachedClasses
     (fst (search_session
       [Types ''MATH'', DebounceFires, FetchSettles 0 (Inr math_listing), Types ''CS'',
        DebounceFires] loaded_app)) = math_listing \<and>
   cachedSubject
     (fst (search_session
       [Types ''MATH'', DebounceFires, FetchSettles 0 (Inr math_listing), Types ''CS'',
        DebounceFires, FetchSettles 1 (Inl (Error ''API error: 500''))] loaded_app)) = None \<and>
   cachedClasses
     (fst (search_session
       [Types ''MATH'', DebounceFires, FetchSettles 0 (Inr math_listing), Types ''CS'',
        DebounceFires, FetchSettles 1 (Inl (Error ''API error: 500''))] loaded_app)) = [] \<and>
   searchError
     (fst (search_session
       [Types ''MATH'', DebounceFires, FetchSettles 0 (Inr math_listing), Types ''CS'',
        DebounceFires, FetchSettles 1 (Inl (Error ''API error: 500''))] loaded_app)) =
     Some ''Cornell server error. Try again later.''"
  by (simp add: session_defs parse_simps math_listing_def getUserFriendlyError_def startsWith_def)

text \<open>
  C6, amended. When the fetch of a search fails and the run is still current, the
  coordinator stores the message \<open>getUserFriendlyError\<close> derives from the failure under
  the label \<open>Subject\<close>, which is never empty, and it empties the cache: no cached
  subject, no cached listing, no displayed results, and the searching flag cleared.
\<close>

theorem failed_search_reports_error_and_clears_cache:
  assumes "isCurrentSearch p s"
  shows "performSearch_resume p (Inl err) s =
           s\<lparr>searchError := Some (getUserFriendlyError err ''Subject''),
             cachedClasses := [], cachedSubject := None, searchResults := [],
             isSearching := False\<rparr> \<and>
         getUserFriendlyError err ''Subject'' \<noteq> []"
  using assms
  by (simp add: performSearch_resume_def getUserFriendlyError_nonempty)

theorem failed_search_reports_error_and_clears_cache_witness:
  "isCurrentSearch cs_pending (fst (search_session [Types ''CS'', DebounceFires] loaded_app)) \<and>
   searchError (performSearch_resume cs_pending (Inl (Error ''API error: 404''))
      (fst (search_session [Types ''CS'', DebounceFires] loaded_app))) =
     Some ''Subject not found.'' \<and>
   cachedSubject (performSearch_resume cs_pending (Inl (Error ''API error: 404''))
      (fst (search_session [Types ''CS'', DebounceFires] loaded_app))) = None"
proof -
  let ?cur = "fst (search_session [Types ''CS'', DebounceFires] loaded_app)"
  have h: "isCurrentSearch cs_pending ?cur"
    by (simp add: session_CS_requested cs_pending_def isCurrentSearch_def parse_simps)
  show ?thesis
    using h failed_search_reports_error_and_clears_cache [OF h, of "Error ''API error: 404''"]
    by (simp add: getUserFriendlyError_def startsWith_def)
qed

section \<open>What the alert functions leave alone\<close>

lemma isAlertDismissed_frame:
  "tracking_part (snd (isAlertDismissed k now s)) = tracking_part s \<and>
   alarm_part (snd (isAlertDismissed k now s)) = alarm_part s \<and>
   alertOverlays (snd (isAlertDismissed k now s)) = alertOverlays s \<and>
   trackedElements (snd (isAlertDismissed k now s)) = trackedElements s"
  by (simp add: isAlertDismissed_def saveDismissedAlerts_def tracking_part_def alarm_part_def
        split: option.splits)

lemma some_active_frame:
  "tracking_part (snd (some_active now ts s)) = tracking_part s \<and>
   alarm_part (snd (some_active now ts s)) = alarm_part s \<and>
   alertOverlays (snd (some_active now ts s)) = alertOverlays s \<and>
   trackedElements (snd (some_active now ts s)) = trackedElements s"
proof (induction ts arbitrary: s)
  case Nil
  then show ?case by simp
next
  case (Cons item rest)
  show ?case
    using isAlertDismissed_frame [of "itemKey item" now s]
      Cons.IH [of s] Cons.IH [of "snd (isAlertDismissed (itemKey item) now s)"]
    by (simp add: case_prod_beta)
qed

lemma open_undismissed_frame:
  "tracking_part (fst (open_undismissed now ex ts s)) = tracking_part s \<and>
   alarm_part (fst (open_undismissed now ex ts s)) = alarm_part s \<and>
   alertOverlays (fst (open_undismissed now ex ts s)) = alertOverlays s \<and>
   trackedElements (fst (open_undismissed now ex ts s)) = trackedElements s"
proof (induction ts arbitrary: s)
  case Nil
  then show ?case by simp
next
  case (Cons item rest)
  show ?case
    using isAlertDismissed_frame [of "itemKey item" now s]
      Cons.IH [of s] Cons.IH [of "snd (isAlertDismissed (itemKey item) now s)"]
    by (simp add: case_prod_beta)
qed

lemma open_undismissed_subset:
  "set (snd (open_undismissed now ex ts s)) \<subseteq> set ts"
proof (induction ts arbitrary: s)
  case Nil
  then show ?case by simp
next
  case (Cons item rest)
  show ?case
    using Cons.IH [of s] Cons.IH [of "snd (isAlertDismissed (itemKey item) now s)"]
    by (auto simp: case_prod_beta)
qed

lemma showAlertOverItem_frame:
  "tracking_part (showAlertOverItem k s) = tracking_part s \<and>
   alarm_part (showAlertOverItem k s) = alarm_part s \<and>
   trackedElements (showAlertOverItem k s) = trackedElements s \<and>
   alertOverlays (showAlertOverItem k s) = insert k (alertOverlays s)"
  by (auto simp: showAlertOverItem_def tracking_part_def alarm_part_def)

lemma reshow_overlays_frame:
  "tracking_part (reshow_overlays its s) = tracking_part s \<and>
   alarm_part (reshow_overlays its s) = alarm_part s \<and>
   trackedElements (reshow_overlays its s) = trackedElements s \<and>
   alertOverlays s \<subseteq> alertOverlays (reshow_overlays its s)"
proof (induction its arbitrary: s)
  case Nil
  then show ?case by (simp add: reshow_overlays_def)
next
  case (Cons item rest)
  have step: "reshow_overlays (item # rest) s =
        reshow_overlays rest
          (if itemKey item \<in> set (trackedElements s) then showAlertOverItem (itemKey item) s else s)"
    by (simp add: reshow_overlays_def)
  show ?case
    using Cons.IH [of s] Cons.IH [of "showAlertOverItem (itemKey item) s"]
      showAlertOverItem_frame [of "itemKey item" s]
    by (auto simp: step)
qed

lemma alert_loop_frame:
  "tracking_part (fst (alert_loop now its s acc)) = tracking_part s \<and>
   alarm_part (fst (alert_loop now its s acc)) = alarm_part s \<and>
   trackedElements (fst (alert_loop now its s acc)) = trackedElements s \<and>
   alertOverlays s \<subseteq> alertOverlays (fst (alert_loop now its s acc))"
proof (induction its arbitrary: s acc)
  case Nil
  then show ?case by simp
next
  case (Cons item rest)
  let ?s1 = "snd (isAlertDismissed (itemKey item) now s)"
  show ?case
    using isAlertDismissed_frame [of "itemKey item" now s]
      Cons.IH [of s acc] Cons.IH [of ?s1 acc]
      Cons.IH [of "showAlertOverItem (itemKey item) ?s1" "acc @ [item]"]
      showAlertOverItem_frame [of "itemKey item" ?s1]
    by (auto simp: case_prod_beta tracking_part_def)
qed

section \<open>Properties of the polling engine\<close>

lemma itemKey_observe [simp]: "itemKey (observe idx now item) = itemKey item"
  by (simp add: observe_def itemKey_def split: option.splits)

lemma classNbr_observe [simp]: "classNbr (observe idx now item) = classNbr item"
  by (simp add: observe_def split: option.splits)

lemma refresh_item_step:
  assumes "i < length (trackedSections s)"
  shows "refresh_item idx now i (s, no, c) =
           (s\<lparr>trackedSections :=
                (trackedSections s)[i := observe idx now (trackedSections s ! i)]\<rparr>,
            if newlyOpens idx (trackedSections s ! i) then no @ [i] else no,
            if idx (classNbr (trackedSections s ! i)) = None then c else c + 1)"
  using assms
  by (auto simp: refresh_item_def observe_def newlyOpens_def Let_def split: option.splits)

lemma refresh_item_invalid:
  "\<not> i < length (trackedSections s) \<Longrightarrow> refresh_item idx now i (s, no, c) = (s, no, c)"
  by (simp add: refresh_item_def)

lemma refresh_item_frame:
  "outside_tick_loop (fst (refresh_item idx now i acc)) = outside_tick_loop (fst acc) \<and>
   fetchRequests (fst (refresh_item idx now i acc)) = fetchRequests (fst acc) \<and>
   map itemKey (trackedSections (fst (refresh_item idx now i acc))) =
     map itemKey (trackedSections (fst acc))"
proof (cases acc)
  case (fields s no c)
  show ?thesis
  proof (cases "i < length (trackedSections s)")
    case True
    then show ?thesis
      by (simp add: fields refresh_item_step outside_tick_loop_def map_update list_update_same_conv)
  next
    case False
    then show ?thesis
      by (simp add: fields refresh_item_invalid)
  qed
qed

lemma refresh_items_frame:
  "outside_tick_loop (fst (fold (refresh_item idx now) refs acc)) = outside_tick_loop (fst acc) \<and>
   fetchRequests (fst (fold (refresh_item idx now) refs acc)) = fetchRequests (fst acc) \<and>
   map itemKey (trackedSections (fst (fold (refresh_item idx now) refs acc))) =
     map itemKey (trackedSections (fst acc))"
proof (induction refs arbitrary: acc)
  case Nil
  then show ?case by simp
next
  case (Cons i refs)
  show ?case
    using Cons.IH [of "refresh_item idx now i acc"] refresh_item_frame [of idx now i acc]
    by simp
qed

lemma refresh_items_result:
  assumes "distinct refs" and "\<forall>i\<in>set refs. i < length (trackedSections s)"
  shows "length (trackedSections (fst (fold (refresh_item idx now) refs (s, no, c)))) =
           length (trackedSections s) \<and>
         (\<forall>j < length (trackedSections s).
            trackedSections (fst (fold (refresh_item idx now) refs (s, no, c))) ! j =
              (if j \<in> set refs then observe idx now (trackedSections s ! j)
               else trackedSections s ! j)) \<and>
         fst (snd (fold (refresh_item idx now) refs (s, no, c))) =
           no @ filter (\<lambda>i. newlyOpens idx (trackedSections s ! i)) refs"
  using assms
proof (induction refs arbitrary: s no c)
  case Nil
  then show ?case by simp
next
  case (Cons i refs)
  let ?ts = "trackedSections s"
  let ?s1 = "s\<lparr>trackedSections := ?ts[i := observe idx now (?ts ! i)]\<rparr>"
  let ?no1 = "if newlyOpens idx (?ts ! i) then no @ [i] else no"
  let ?c1 = "if idx (classNbr (?ts ! i)) = None then c else c + 1"
  let ?R = "fold (refresh_item idx now) refs (?s1, ?no1, ?c1)"
  have i: "i < length ?ts" and notin: "i \<notin> set refs" and dist: "distinct refs"
    using Cons.prems by simp_all
  have valid: "\<forall>j\<in>set refs. j < length (trackedSections ?s1)"
    using Cons.prems by simp
  have same: "trackedSections ?s1 ! j = ?ts ! j" if "j \<in> set refs" for j
  proof -
    have "i \<noteq> j" using that notin by auto
    then show ?thesis by simp
  qed
  have step: "fold (refresh_item idx now) (i # refs) (s, no, c) = ?R"
    using i by (simp add: refresh_item_step)
  have IH: "length (trackedSections (fst ?R)) = length (trackedSections ?s1) \<and>
        (\<forall>j < length (trackedSections ?s1).
            trackedSections (fst ?R) ! j =
              (if j \<in> set refs then observe idx now (trackedSections ?s1 ! j)
               else trackedSections ?s1 ! j)) \<and>
        fst (snd ?R) = ?no1 @ filter (\<lambda>i. newlyOpens idx (trackedSections ?s1 ! i)) refs"
    using dist valid by (rule Cons.IH)
  have len: "length (trackedSections (fst ?R)) = length ?ts"
    using IH by simp
  have nth: "\<forall>j < length ?ts. trackedSections (fst ?R) ! j =
               (if j \<in> set (i # refs) then observe idx now (?ts ! j) else ?ts ! j)"
  proof (intro allI impI)
    fix j assume j: "j < length ?ts"
    have "trackedSections (fst ?R) ! j =
            (if j \<in> set refs then observe idx now (trackedSections ?s1 ! j)
             else trackedSections ?s1 ! j)"
      using IH j by simp
    then show "trackedSections (fst ?R) ! j =
                 (if j \<in> set (i # refs) then observe idx now (?ts ! j) else ?ts ! j)"
      using notin j by (cases "j = i") (auto simp: same)
  qed
  have "filter (\<lambda>i. newlyOpens idx (trackedSections ?s1 ! i)) refs =
        filter (\<lambda>i. newlyOpens idx (?ts ! i)) refs"
    using same by (intro filter_cong) simp_all
  then have acc: "fst (snd ?R) = no @ filter (\<lambda>i. newlyOpens idx (?ts ! i)) (i # refs)"
    using IH by simp
  show ?case
    unfolding step using len nth acc by blast
qed

lemma refresh_groups_frame:
  "outside_tick_loop (fst (snd (refresh_groups replies n gs acc))) = outside_tick_loop (fst acc) \<and>
   map itemKey (trackedSections (fst (snd (refresh_groups replies n gs acc)))) =
     map itemKey (trackedSections (fst acc))"
proof (induction gs arbitrary: n acc)
  case Nil
  then show ?case by simp
next
  case (Cons g gs)
  obtain s no c where acc: "acc = (s, no, c)" by (cases acc)
  let ?s1 = "s\<lparr>fetchRequests := fetchRequests s @ [searchUrl (groupRoster g) (groupSubject g)]\<rparr>"
  show ?case
  proof (cases "snd (replies n)")
    case (Inl err)
    then show ?thesis
      by (simp add: acc outside_tick_loop_def)
  next
    case (Inr classes)
    let ?acc1 = "refresh_group classes (fst (replies n)) g (?s1, no, c)"
    have 1: "outside_tick_loop (fst ?acc1) = outside_tick_loop s \<and>
             map itemKey (trackedSections (fst ?acc1)) = map itemKey (trackedSections s)"
      using refresh_items_frame
              [of "statusIndex_of classes" "fst (replies n)" "items g" "(?s1, no, c)"]
      by (simp add: refresh_group_def outside_tick_loop_def)
    show ?thesis
      using Cons.IH [of "Suc n" ?acc1] 1
      by (simp add: acc Inr)
  qed
qed

lemma refresh_groups_success:
  assumes "\<forall>j < length gs. \<exists>classes. snd (replies (n + j)) = Inr classes"
  shows "fst (refresh_groups replies n gs acc) = None \<and>
         fetchRequests (fst (snd (refresh_groups replies n gs acc))) =
           fetchRequests (fst acc) @ map groupUrl gs"
  using assms
proof (induction gs arbitrary: n acc)
  case Nil
  then show ?case by simp
next
  case (Cons g gs)
  obtain s no c where acc: "acc = (s, no, c)" by (cases acc)
  obtain classes where r: "snd (replies n) = Inr classes"
    using Cons.prems by force
  let ?s1 = "s\<lparr>fetchRequests := fetchRequests s @ [searchUrl (groupRoster g) (groupSubject g)]\<rparr>"
  let ?acc1 = "refresh_group classes (fst (replies n)) g (?s1, no, c)"
  have rest: "\<forall>j < length gs. \<exists>classes. snd (replies (Suc n + j)) = Inr classes"
    using Cons.prems by force
  have fr: "fetchRequests (fst ?acc1) = fetchRequests s @ [groupUrl g]"
    using refresh_items_frame
            [of "statusIndex_of classes" "fst (replies n)" "items g" "(?s1, no, c)"]
    by (simp add: refresh_group_def groupUrl_def)
  show ?case
    using Cons.IH [OF rest, of ?acc1] fr
    by (simp add: acc r)
qed

lemma refresh_groups_append:
  "refresh_groups replies n (pre @ post) acc =
     (case refresh_groups replies n pre acc of
        (None, acc') \<Rightarrow> refresh_groups replies (n + length pre) post acc'
      | (Some err, acc') \<Rightarrow> (Some err, acc'))"
proof (induction pre arbitrary: n acc)
  case Nil
  then show ?case by simp
next
  case (Cons g pre)
  obtain s no c where acc: "acc = (s, no, c)" by (cases acc)
  show ?case
    by (cases "snd (replies n)")
      (simp_all add: acc Cons.IH split: prod.splits option.splits)
qed

lemma refs_of_Nil [simp]: "refs_of [] = []"
  by (simp add: refs_of_def)


lemma refs_of_Cons [simp]: "refs_of ((k, g) # gs) = items g @ refs_of gs"
  by (simp add: refs_of_def)


lemma refs_of_add:
  "set (refs_of (add_to_group k item i gs)) = insert i (set (refs_of gs))"
  by (induction gs) (auto split: if_splits)


lemma distinct_refs_of_add:
  "distinct (refs_of gs) \<Longrightarrow> i \<notin> set (refs_of gs) \<Longrightarrow>
   distinct (refs_of (add_to_group k item i gs))"
proof (induction gs)
  case Nil
  then show ?case by simp
next
  case (Cons kg gs)
  obtain k' g where kg: "kg = (k', g)" by (cases kg)
  have tl: "distinct (refs_of gs)" "i \<notin> set (refs_of gs)"
    using Cons.prems by (simp_all add: kg)
  have rest: "set (refs_of (add_to_group k item i gs)) = insert i (set (refs_of gs))"
    by (rule refs_of_add)
  have IH: "distinct (refs_of (add_to_group k item i gs))"
    using tl by (rule Cons.IH)
  show ?case
    using Cons.prems IH rest
    by (auto simp: kg)
qed


lemma build_groups_refs:
  assumes "distinct (refs_of gs)" and "\<forall>r\<in>set (refs_of gs). r < n"
  shows "distinct (refs_of (build_groups ts n gs)) \<and>
         (\<forall>r\<in>set (refs_of (build_groups ts n gs)). r < n + length ts)"
  using assms
proof (induction ts arbitrary: n gs)
  case Nil
  then show ?case by simp
next
  case (Cons item ts)
  let ?gs1 = "add_to_group (groupKey item) item n gs"
  have fresh: "n \<notin> set (refs_of gs)"
    using Cons.prems(2) by blast
  have d1: "distinct (refs_of ?gs1)"
    using Cons.prems(1) fresh by (rule distinct_refs_of_add)
  have b1: "\<forall>r\<in>set (refs_of ?gs1). r < Suc n"
    using Cons.prems(2) by (simp add: refs_of_add less_Suc_eq)
  have "distinct (refs_of (build_groups ts (Suc n) ?gs1)) \<and>
        (\<forall>r\<in>set (refs_of (build_groups ts (Suc n) ?gs1)). r < Suc n + length ts)"
    using d1 b1 by (rule Cons.IH)
  then show ?case
    by simp
qed


text \<open>
  The groups of a tick hold each position of the tracked list once: the references of
  a group are distinct and are positions of the list.
\<close>

lemma tick_groups_refs:
  assumes "g \<in> set (tick_groups s)"
  shows "distinct (items g) \<and> (\<forall>i\<in>set (items g). i < length (trackedSections s))"
proof -
  let ?kgs = "build_groups (trackedSections s) 0 []"
  have all: "distinct (refs_of ?kgs) \<and>
             (\<forall>r\<in>set (refs_of ?kgs). r < 0 + length (trackedSections s))"
    by (rule build_groups_refs) simp_all
  obtain kg where kg: "kg \<in> set ?kgs" and g: "g = snd kg"
    using assms by (auto simp: tick_groups_def)
  have mem: "items g \<in> set (map (\<lambda>kg. items (snd kg)) ?kgs)"
    using kg g by auto
  have "distinct (concat (map (\<lambda>kg. items (snd kg)) ?kgs))"
    using all by (simp add: refs_of_def)
  then have d: "distinct (items g)"
    using mem by (simp add: distinct_concat_iff)
  have "set (items g) \<subseteq> set (refs_of ?kgs)"
    using kg g by (auto simp: refs_of_def)
  then have "\<forall>i\<in>set (items g). i < length (trackedSections s)"
    using all by auto
  with d show ?thesis by simp
qed


lemma tick_groups_start [simp]: "tick_groups (tick_start s) = tick_groups s"
  by (simp add: tick_groups_def tick_start_def)

text \<open>
  C3. For a group whose fetch succeeded with \<open>classes\<close> at clock reading \<open>now\<close>, and
  every section \<open>i\<close> of the group: if the lookup built from the response has no entry
  for its class number, the stored section is exactly as before and is not classified;
  if the lookup has the status \<open>st\<close> for it, the stored section takes \<open>st\<close> and the
  time of the check, and it is classified newly opened exactly when its stored status
  was not \<open>O\<close> and \<open>st\<close> is \<open>O\<close>, so not when \<open>O\<close> is observed again as \<open>O\<close>. The
  hypotheses on the group hold for every group of a tick (\<open>tick_groups_refs\<close>).
\<close>


theorem poll_updates_and_classifies:
  assumes "distinct (items g)"
    and "\<forall>j\<in>set (items g). j < length (trackedSections s)"
    and "i \<in> set (items g)"
  shows "(statusIndex_of classes (classNbr (trackedSections s ! i)) = None \<longrightarrow>
            trackedSections (fst (refresh_group classes now g (s, no, c))) ! i =
              trackedSections s ! i \<and>
            (i \<in> set (fst (snd (refresh_group classes now g (s, no, c)))) \<longleftrightarrow> i \<in> set no)) \<and>
         (\<forall>st. statusIndex_of classes (classNbr (trackedSections s ! i)) = Some st \<longrightarrow>
            trackedSections (fst (refresh_group classes now g (s, no, c))) ! i =
              (trackedSections s ! i)\<lparr>lastStatus := st, lastCheckedAt := now\<rparr> \<and>
            (i \<in> set (fst (snd (refresh_group classes now g (s, no, c)))) \<longleftrightarrow>
               i \<in> set no \<or> (lastStatus (trackedSections s ! i) \<noteq> ''O'' \<and> st = ''O'')))"
proof -
  let ?idx = "statusIndex_of classes"
  let ?R = "fold (refresh_item ?idx now) (items g) (s, no, c)"
  have i: "i < length (trackedSections s)"
    using assms(2,3) by simp
  have res: "length (trackedSections (fst ?R)) = length (trackedSections s) \<and>
         (\<forall>j < length (trackedSections s).
            trackedSections (fst ?R) ! j =
              (if j \<in> set (items g) then observe ?idx now (trackedSections s ! j)
               else trackedSections s ! j)) \<and>
         fst (snd ?R) = no @ filter (\<lambda>i. newlyOpens ?idx (trackedSections s ! i)) (items g)"
    using assms(1,2) by (rule refresh_items_result)
  have item: "trackedSections (fst ?R) ! i = observe ?idx now (trackedSections s ! i)"
    using res i assms(3) by simp
  have cls: "i \<in> set (fst (snd ?R)) \<longleftrightarrow>
             i \<in> set no \<or> newlyOpens ?idx (trackedSections s ! i)"
    using res assms(3) by auto
  show ?thesis
    unfolding refresh_group_def using item cls
    by (auto simp: observe_def newlyOpens_def)
qed


lemma refresh_groups_fail_at:
  assumes "k < length gs" and "snd (replies (n + k)) = Inl err"
    and "\<forall>j<k. \<exists>classes. snd (replies (n + j)) = Inr classes"
  shows "refresh_groups replies n gs acc =
           (Some err,
            (fst (snd (refresh_groups replies n (take k gs) acc)))
              \<lparr>fetchRequests :=
                 fetchRequests (fst (snd (refresh_groups replies n (take k gs) acc))) @
                 [groupUrl (gs ! k)]\<rparr>,
            snd (snd (refresh_groups replies n (take k gs) acc)))"
  using assms
proof (induction gs arbitrary: n k acc)
  case Nil
  then show ?case by simp
next
  case (Cons g gs)
  obtain s no c where acc: "acc = (s, no, c)" by (cases acc)
  show ?case
  proof (cases k)
    case 0
    then show ?thesis
      using Cons.prems by (simp add: acc groupUrl_def)
  next
    case (Suc k')
    obtain classes where r: "snd (replies n) = Inr classes"
      using Cons.prems(3) Suc by force
    let ?s1 = "s\<lparr>fetchRequests := fetchRequests s @ [searchUrl (groupRoster g) (groupSubject g)]\<rparr>"
    let ?acc1 = "refresh_group classes (fst (replies n)) g (?s1, no, c)"
    have 1: "k' < length gs" using Cons.prems(1) Suc by simp
    have 2: "snd (replies (Suc n + k')) = Inl err" using Cons.prems(2) Suc by simp
    have 3: "\<forall>j<k'. \<exists>classes. snd (replies (Suc n + j)) = Inr classes"
    proof (intro allI impI)
      fix j assume "j < k'"
      then have "Suc j < k" using Suc by simp
      then have "\<exists>classes. snd (replies (n + Suc j)) = Inr classes"
        using Cons.prems(3) by blast
      then show "\<exists>classes. snd (replies (Suc n + j)) = Inr classes" by simp
    qed
    show ?thesis
      using Cons.IH [OF 1 2 3, of ?acc1]
      by (simp add: acc r Suc)
  qed
qed


lemma outside_tick_loop_eqD:
  assumes "outside_tick_loop a = outside_tick_loop b"
  shows "alarm_part a = alarm_part b \<and> alertOverlays a = alertOverlays b \<and>
         trackedElements a = trackedElements b \<and> trackedKeySet a = trackedKeySet b \<and>
         storedTracked a = storedTracked b \<and> storageWritable a = storageWritable b \<and>
         dismissedAlerts a = dismissedAlerts b \<and> storedDismissed a = storedDismissed b \<and>
         pollingTimer a = pollingTimer b \<and> isRefreshing a = isRefreshing b \<and>
         refreshBtnDisabled a = refreshBtnDisabled b \<and>
         trackedStatusText a = trackedStatusText b \<and>
         trackedStatusClasses a = trackedStatusClasses b \<and>
         soundEnabled a = soundEnabled b \<and> notifyEnabled a = notifyEnabled b"
proof -
  let ?P = "\<lambda>x. ((alarm_part x, alertOverlays x, trackedElements x, trackedKeySet x),
                 (storedTracked x, storageWritable x, dismissedAlerts x, storedDismissed x),
                 (pollingTimer x, isRefreshing x, refreshBtnDisabled x, trackedStatusText x),
                 (trackedStatusClasses x, soundEnabled x, notifyEnabled x))"
  have "?P (outside_tick_loop a) = ?P (outside_tick_loop b)"
    using assms by simp
  then show ?thesis
    by (simp add: outside_tick_loop_def alarm_part_def)
qed


section \<open>The example session, evaluated\<close>

lemmas track_defs =
  loaded_app_def fresh_app_def toggleTrack_def keyOf_def render_def
  saveTrackedSections_def renderTrackedList_def triggerOpenAlert_def isAlertDismissed_def
  showAlertOverItem_def startAlertSound_def showNotification_def alertMessage_def
  itemKey_def Let_def

lemma tracked_app_eq:
  "tracked_app =
     loaded_app\<lparr>trackedSections := [item_1234, item_1300, item_5678, item_9999],
       trackedKeySet := {''FA25:1234'', ''FA25:1300'', ''FA25:5678'', ''FA25:9999''},
       storedTracked := Some [item_1234, item_1300, item_5678, item_9999],
       trackedElements := [''FA25:1234'', ''FA25:1300'', ''FA25:5678'', ''FA25:9999''],
       isAlerting := True, soundRequests := 1,
       notifyRequests := [(''CourseSnag Alert'', ''CS 3110 is now OPEN!'')],
       notifications := [(''CourseSnag Alert'', ''CS 3110 is now OPEN!'')]\<rparr>"
  by (simp add: tracked_app_def track_defs item_1234_def item_1300_def item_5678_def
        item_9999_def insert_commute)

lemma tick_groups_tracked:
  "tick_groups tracked_app =
     [cs_group, \<lparr>groupRoster = Some ''FA25'', groupSubject = ''MATH'', items = [2]\<rparr>]"
  by (simp add: tracked_app_eq tick_groups_def groupKey_def render_def cs_group_def
        item_1234_def item_1300_def item_5678_def item_9999_def)

lemma index_cs_open:
  "statusIndex_of cs_listing_open ''1234'' = Some ''O''"
  "statusIndex_of cs_listing_open ''1300'' = Some ''O''"
  "statusIndex_of cs_listing_open ''9999'' = None"
  by (simp_all add: statusIndex_of_def cs_listing_open_def string_of_nat.simps)

lemma tracked_app_fields:
  "trackedSections tracked_app = [item_1234, item_1300, item_5678, item_9999]"
  "trackedKeySet tracked_app = {''FA25:1234'', ''FA25:1300'', ''FA25:5678'', ''FA25:9999''}"
  "storedTracked tracked_app = Some [item_1234, item_1300, item_5678, item_9999]"
  "trackedElements tracked_app = [''FA25:1234'', ''FA25:1300'', ''FA25:5678'', ''FA25:9999'']"
  "fetchRequests tracked_app = []"
  "isRefreshing tracked_app = False"
  "alertOverlays tracked_app = {}"
  "soundRequests tracked_app = 1"
  "notifyRequests tracked_app = [(''CourseSnag Alert'', ''CS 3110 is now OPEN!'')]"
  "isAlerting tracked_app = True"
  "soundEnabled tracked_app = True"
  "notifyEnabled tracked_app = True"
  "dismissedAlerts tracked_app = Map.empty"
  "storageWritable tracked_app = True"
  by (simp_all add: tracked_app_eq loaded_app_def fresh_app_def)

section \<open>The claims about a polling tick\<close>

theorem poll_updates_and_classifies_witness:
  "cs_group \<in> set (tick_groups tracked_app) \<and>
   distinct (items cs_group) \<and>
   trackedSections (fst (refresh_group cs_listing_open 5000 cs_group (tracked_app, [], 0))) ! 0 =
     item_1234\<lparr>lastStatus := ''O'', lastCheckedAt := 5000\<rparr> \<and>
   0 \<in> set (fst (snd (refresh_group cs_listing_open 5000 cs_group (tracked_app, [], 0)))) \<and>
   trackedSections (fst (refresh_group cs_listing_open 5000 cs_group (tracked_app, [], 0))) ! 1 =
     item_1300\<lparr>lastStatus := ''O'', lastCheckedAt := 5000\<rparr> \<and>
   1 \<notin> set (fst (snd (refresh_group cs_listing_open 5000 cs_group (tracked_app, [], 0)))) \<and>
   trackedSections (fst (refresh_group cs_listing_open 5000 cs_group (tracked_app, [], 0))) ! 3 =
     item_9999 \<and>
   3 \<notin> set (fst (snd (refresh_group cs_listing_open 5000 cs_group (tracked_app, [], 0))))"
proof -
  have g: "cs_group \<in> set (tick_groups tracked_app)"
    by (simp add: tick_groups_tracked)
  have h1: "distinct (items cs_group)"
    by (simp add: cs_group_def)
  have h2: "\<forall>j\<in>set (items cs_group). j < length (trackedSections tracked_app)"
    by (simp add: cs_group_def tracked_app_eq)
  have m0: "0 \<in> set (items cs_group)" and m1: "1 \<in> set (items cs_group)"
    and m3: "3 \<in> set (items cs_group)"
    by (simp_all add: cs_group_def)
  have ts: "trackedSections tracked_app = [item_1234, item_1300, item_5678, item_9999]"
    by (simp add: tracked_app_eq)
  show ?thesis
    using g h1
      poll_updates_and_classifies [OF h1 h2 m0, of cs_listing_open 5000 "[]" 0]
      poll_updates_and_classifies [OF h1 h2 m1, of cs_listing_open 5000 "[]" 0]
      poll_updates_and_classifies [OF h1 h2 m3, of cs_listing_open 5000 "[]" 0]
    by (simp add: ts index_cs_open item_1234_def item_1300_def item_9999_def)
qed

text \<open>
  C4. A tick in which the fetches of the first \<open>k\<close> groups succeed and the fetch of
  group \<open>k\<close> fails: the tracked list is the one the loop had produced after the first
  \<open>k\<close> groups, so the updates made for them stay; exactly one request was made for each
  group up to the failing one and none after it, so nothing is retried and no later
  group is asked; the status line shows the message for the failure, with the class
  \<open>error\<close>; no overlay is added or removed, no sound is requested, no notification is
  requested or shown; nothing is saved; and the tick leaves \<open>isRefreshing\<close> false, the
  refresh button enabled and the polling timer as it was, so the next tick runs.
\<close>

theorem failed_tick_keeps_earlier_updates:
  assumes "trackedSections s \<noteq> []" and "\<not> isRefreshing s"
    and "k < length (tick_groups s)" and "snd (replies k) = Inl err"
    and "\<forall>j<k. \<exists>classes. snd (replies j) = Inr classes"
  shows "fst (refresh_groups replies 0 (take k (tick_groups s)) (tick_start s, [], 0)) = None \<and>
         trackedSections (refreshTrackedSections replies s) =
           trackedSections
             (fst (snd (refresh_groups replies 0 (take k (tick_groups s)) (tick_start s, [], 0)))) \<and>
         fetchRequests (refreshTrackedSections replies s) =
           fetchRequests s @ map groupUrl (take (Suc k) (tick_groups s)) \<and>
         trackedStatusText (refreshTrackedSections replies s) =
           getUserFriendlyError err ''Refresh'' \<and>
         ''error'' \<in> trackedStatusClasses (refreshTrackedSections replies s) \<and>
         alertOverlays (refreshTrackedSections replies s) = alertOverlays s \<and>
         soundRequests (refreshTrackedSections replies s) = soundRequests s \<and>
         notifyRequests (refreshTrackedSections replies s) = notifyRequests s \<and>
         notifications (refreshTrackedSections replies s) = notifications s \<and>
         isAlerting (refreshTrackedSections replies s) = isAlerting s \<and>
         storedTracked (refreshTrackedSections replies s) = storedTracked s \<and>
         \<not> isRefreshing (refreshTrackedSections replies s) \<and>
         \<not> refreshBtnDisabled (refreshTrackedSections replies s) \<and>
         pollingTimer (refreshTrackedSections replies s) = pollingTimer s"
proof -
  let ?gs = "tick_groups s"
  let ?P = "refresh_groups replies 0 (take k ?gs) (tick_start s, [], 0)"
  let ?sk = "fst (snd ?P)"
  have pre: "\<forall>j < length (take k ?gs). \<exists>classes. snd (replies (0 + j)) = Inr classes"
    using assms(3,5) by simp
  have ok: "fst ?P = None \<and>
            fetchRequests ?sk = fetchRequests (fst (tick_start s, [] :: nat list, 0 :: nat)) @
              map groupUrl (take k ?gs)"
    using pre by (rule refresh_groups_success)
  have "outside_tick_loop ?sk = outside_tick_loop (tick_start s)"
    using refresh_groups_frame [of replies 0 "take k ?gs" "(tick_start s, [], 0)"] by simp
  note fields = outside_tick_loop_eqD [OF this]
  have whole: "refresh_groups replies 0 ?gs (tick_start s, [], 0) =
                 (Some err,
                  ?sk\<lparr>fetchRequests := fetchRequests ?sk @ [groupUrl (?gs ! k)]\<rparr>,
                  snd (snd ?P))"
    using assms(3,4,5) by (intro refresh_groups_fail_at) simp_all
  have final: "refreshTrackedSections replies s =
                 ?sk\<lparr>fetchRequests := fetchRequests ?sk @ [groupUrl (?gs ! k)],
                     trackedStatusText := getUserFriendlyError err ''Refresh'',
                     trackedStatusClasses := insert ''error'' (trackedStatusClasses ?sk),
                     isRefreshing := False, refreshBtnDisabled := False\<rparr>"
    using assms(1,2) whole by (simp add: refreshTrackedSections_def Let_def)
  show ?thesis
    using ok fields assms(3)
    by (simp add: final take_Suc_conv_app_nth tick_start_def alarm_part_def)
qed

lemma failing_tick_first_group:
  "refresh_groups failing_replies 0 (take 1 (tick_groups tracked_app)) (tick_start tracked_app, [], 0) =
     (None,
      (tick_start tracked_app)
        \<lparr>fetchRequests := [searchUrl (Some ''FA25'') ''CS''],
         trackedSections :=
           [item_1234\<lparr>lastStatus := ''O'', lastCheckedAt := 5000\<rparr>,
            item_1300\<lparr>lastStatus := ''O'', lastCheckedAt := 5000\<rparr>,
            item_5678, item_9999]\<rparr>,
      [0], 2)"
  by (simp add: tick_groups_tracked failing_replies_def refresh_group_def cs_group_def
        refresh_item_def index_cs_open tracked_app_fields tick_start_def
        item_1234_def item_1300_def item_5678_def item_9999_def)

theorem failed_tick_keeps_earlier_updates_witness:
  "trackedSections tracked_app \<noteq> [] \<and> \<not> isRefreshing tracked_app \<and>
   1 < length (tick_groups tracked_app) \<and>
   snd (failing_replies 1) = Inl (Error ''Failed to fetch'') \<and>
   snd (failing_replies 0) = Inr cs_listing_open \<and>
   trackedSections (refreshTrackedSections failing_replies tracked_app) =
     [item_1234\<lparr>lastStatus := ''O'', lastCheckedAt := 5000\<rparr>,
      item_1300\<lparr>lastStatus := ''O'', lastCheckedAt := 5000\<rparr>, item_5678, item_9999] \<and>
   fetchRequests (refreshTrackedSections failing_replies tracked_app) =
     [searchUrl (Some ''FA25'') ''CS'', searchUrl (Some ''FA25'') ''MATH''] \<and>
   trackedStatusText (refreshTrackedSections failing_replies tracked_app) =
     ''Unable to connect. Check your internet connection.'' \<and>
   alertOverlays (refreshTrackedSections failing_replies tracked_app) = {} \<and>
   soundRequests (refreshTrackedSections failing_replies tracked_app) = 1 \<and>
   \<not> isRefreshing (refreshTrackedSections failing_replies tracked_app)"
proof -
  have h1: "trackedSections tracked_app \<noteq> []" by (simp add: tracked_app_fields)
  have h2: "\<not> isRefreshing tracked_app" by (simp add: tracked_app_fields)
  have h3: "1 < length (tick_groups tracked_app)" by (simp add: tick_groups_tracked)
  have h4: "snd (failing_replies 1) = Inl (Error ''Failed to fetch'')"
    by (simp add: failing_replies_def)
  have h5: "\<forall>j<1. \<exists>classes. snd (failing_replies j) = Inr classes"
    by (simp add: failing_replies_def)
  have h6: "snd (failing_replies 0) = Inr cs_listing_open"
    by (simp add: failing_replies_def)
  have u: "getUserFriendlyError (Error ''Failed to fetch'') ''Refresh'' =
             ''Unable to connect. Check your internet connection.''"
    by (simp add: getUserFriendlyError_def startsWith_def)
  note t = failed_tick_keeps_earlier_updates
             [OF h1 h2 h3 h4 h5, unfolded failing_tick_first_group]
  show ?thesis
    using h1 h2 h3 h4 h6 t
    by (simp add: u tick_groups_tracked groupUrl_def cs_group_def tracked_app_fields)
qed

section \<open>Properties of the alert dispatcher\<close>

lemma startAlertSound_frame:
  "tracking_part (startAlertSound s) = tracking_part s \<and>
   alertOverlays (startAlertSound s) = alertOverlays s \<and>
   trackedElements (startAlertSound s) = trackedElements s \<and>
   notifyRequests (startAlertSound s) = notifyRequests s \<and>
   notifyEnabled (startAlertSound s) = notifyEnabled s \<and>
   soundRequests (startAlertSound s) = soundRequests s + 1"
  by (simp add: startAlertSound_def tracking_part_def Let_def)

lemma showNotification_frame:
  "tracking_part (showNotification t b s) = tracking_part s \<and>
   alertOverlays (showNotification t b s) = alertOverlays s \<and>
   trackedElements (showNotification t b s) = trackedElements s \<and>
   soundRequests (showNotification t b s) = soundRequests s \<and>
   notifyRequests (showNotification t b s) = notifyRequests s @ [(t, b)]"
  by (simp add: showNotification_def tracking_part_def Let_def)

lemma alert_loop_actionable:
  "set (snd (alert_loop now its s acc)) \<subseteq>
     set acc \<union> {item \<in> set its. itemKey item \<in> alertOverlays (fst (alert_loop now its s acc))}"
proof (induction its arbitrary: s acc)
  case Nil
  then show ?case by simp
next
  case (Cons item rest)
  let ?k = "itemKey item"
  let ?s1 = "snd (isAlertDismissed ?k now s)"
  let ?s2 = "showAlertOverItem ?k ?s1"
  have mono: "alertOverlays ?s2 \<subseteq> alertOverlays (fst (alert_loop now rest ?s2 (acc @ [item])))"
    using alert_loop_frame [of now rest ?s2 "acc @ [item]"] by simp
  have shown: "?k \<in> alertOverlays ?s2"
    using showAlertOverItem_frame [of ?k ?s1] by simp
  show ?case
    using Cons.IH [of s acc] Cons.IH [of ?s1 acc] Cons.IH [of ?s2 "acc @ [item]"] mono shown
    by (auto simp: case_prod_beta)
qed

lemma triggerOpenAlert_frame:
  "tracking_part (triggerOpenAlert now its s) = tracking_part s \<and>
   trackedElements (triggerOpenAlert now its s) = trackedElements s \<and>
   alertOverlays s \<subseteq> alertOverlays (triggerOpenAlert now its s) \<and>
   soundRequests (triggerOpenAlert now its s) \<le> soundRequests s + 1 \<and>
   length (notifyRequests (triggerOpenAlert now its s)) \<le> length (notifyRequests s) + 1"
proof -
  let ?L = "alert_loop now its s []"
  have f: "tracking_part (fst ?L) = tracking_part s \<and> alarm_part (fst ?L) = alarm_part s \<and>
           trackedElements (fst ?L) = trackedElements s \<and> alertOverlays s \<subseteq> alertOverlays (fst ?L)"
    by (rule alert_loop_frame)
  then have a: "soundRequests (fst ?L) = soundRequests s" "notifyRequests (fst ?L) = notifyRequests s"
    by (simp_all add: alarm_part_def)
  show ?thesis
    using f a startAlertSound_frame [of "fst ?L"]
      showNotification_frame [of "''CourseSnag Alert''" "alertMessage (snd ?L)" "fst ?L"]
      showNotification_frame [of "''CourseSnag Alert''" "alertMessage (snd ?L)" "startAlertSound (fst ?L)"]
    by (simp add: triggerOpenAlert_def case_prod_beta Let_def)
qed

lemma triggerOpenAlert_alarm:
  assumes "soundRequests (triggerOpenAlert now its s) \<noteq> soundRequests s \<or>
           notifyRequests (triggerOpenAlert now its s) \<noteq> notifyRequests s"
  shows "\<exists>item\<in>set its. itemKey item \<in> alertOverlays (triggerOpenAlert now its s)"
proof -
  let ?L = "alert_loop now its s []"
  have f: "alarm_part (fst ?L) = alarm_part s"
    using alert_loop_frame [of now its s "[]"] by simp
  then have a: "soundRequests (fst ?L) = soundRequests s" "notifyRequests (fst ?L) = notifyRequests s"
    by (simp_all add: alarm_part_def)
  have ne: "its \<noteq> [] \<and> snd ?L \<noteq> []"
    using assms a by (auto simp: triggerOpenAlert_def case_prod_beta Let_def split: if_splits)
  then obtain item where item: "item \<in> set (snd ?L)"
    by (cases "snd ?L") auto
  then have shown: "item \<in> set its \<and> itemKey item \<in> alertOverlays (fst ?L)"
    using alert_loop_actionable [of now its s "[]"] by auto
  have "alertOverlays (triggerOpenAlert now its s) = alertOverlays (fst ?L)"
    using startAlertSound_frame [of "fst ?L"]
      showNotification_frame [of "''CourseSnag Alert''" "alertMessage (snd ?L)" "fst ?L"]
      showNotification_frame [of "''CourseSnag Alert''" "alertMessage (snd ?L)" "startAlertSound (fst ?L)"]
    by (simp add: triggerOpenAlert_def case_prod_beta Let_def)
  with shown show ?thesis by auto
qed

lemma deref_mem:
  "item \<in> set (deref ts refs) \<Longrightarrow> \<exists>i\<in>set refs. i < length ts \<and> item = ts ! i"
  by (auto simp: deref_def split: if_splits)

lemma refresh_finish_unfold:
  "refresh_finish now refs s =
     (let s2 = (renderTrackedList (saveTrackedSections s))
                 \<lparr>lastUpdated := Some now, trackedStatusText := [],
                  trackedStatusClasses :=
                    trackedStatusClasses (renderTrackedList (saveTrackedSections s)) - {''loading''}\<rparr>;
          actionable = filter (\<lambda>item. itemKey item \<in> set (map itemKey (trackedSections s2)))
                         (deref (trackedSections s2) refs);
          s3 = (if actionable \<noteq> [] then triggerOpenAlert now actionable s2 else s2);
          opn = open_undismissed now (set (map itemKey actionable)) (trackedSections s3) s3
      in reshow_overlays (snd opn) (fst opn))"
  by (simp add: refresh_finish_def Let_def case_prod_beta)

lemma refresh_finish_start:
  "trackedSections ((renderTrackedList (saveTrackedSections s))
       \<lparr>lastUpdated := x, trackedStatusText := y, trackedStatusClasses := z\<rparr>) = trackedSections s \<and>
   trackedKeySet ((renderTrackedList (saveTrackedSections s))
       \<lparr>lastUpdated := x, trackedStatusText := y, trackedStatusClasses := z\<rparr>) = trackedKeySet s \<and>
   soundRequests ((renderTrackedList (saveTrackedSections s))
       \<lparr>lastUpdated := x, trackedStatusText := y, trackedStatusClasses := z\<rparr>) = soundRequests s \<and>
   notifyRequests ((renderTrackedList (saveTrackedSections s))
       \<lparr>lastUpdated := x, trackedStatusText := y, trackedStatusClasses := z\<rparr>) = notifyRequests s \<and>
   storageWritable ((renderTrackedList (saveTrackedSections s))
       \<lparr>lastUpdated := x, trackedStatusText := y, trackedStatusClasses := z\<rparr>) = storageWritable s \<and>
   storedTracked ((renderTrackedList (saveTrackedSections s))
       \<lparr>lastUpdated := x, trackedStatusText := y, trackedStatusClasses := z\<rparr>) =
     (if storageWritable s then Some (trackedSections s) else storedTracked s)"
  by (simp add: renderTrackedList_def saveTrackedSections_def)

lemma refresh_finish_alarm:
  assumes "soundRequests (refresh_finish now refs s) \<noteq> soundRequests s \<or>
           notifyRequests (refresh_finish now refs s) \<noteq> notifyRequests s"
  shows "\<exists>i\<in>set refs. i < length (trackedSections s) \<and>
           itemKey (trackedSections s ! i) \<in> alertOverlays (refresh_finish now refs s)"
proof -
  define s2 where "s2 = (renderTrackedList (saveTrackedSections s))
                 \<lparr>lastUpdated := Some now, trackedStatusText := [],
                  trackedStatusClasses :=
                    trackedStatusClasses (renderTrackedList (saveTrackedSections s)) - {''loading''}\<rparr>"
  define actionable where "actionable =
     filter (\<lambda>item. itemKey item \<in> set (map itemKey (trackedSections s2)))
       (deref (trackedSections s2) refs)"
  define s3 where "s3 = (if actionable \<noteq> [] then triggerOpenAlert now actionable s2 else s2)"
  define opn where "opn = open_undismissed now (set (map itemKey actionable)) (trackedSections s3) s3"
  have fin: "refresh_finish now refs s = reshow_overlays (snd opn) (fst opn)"
    by (simp add: refresh_finish_unfold s2_def actionable_def s3_def opn_def Let_def)
  have s2: "trackedSections s2 = trackedSections s" "soundRequests s2 = soundRequests s"
    "notifyRequests s2 = notifyRequests s"
    using refresh_finish_start [where s = s] by (simp_all add: s2_def)
  have o: "alarm_part (fst opn) = alarm_part s3 \<and> alertOverlays (fst opn) = alertOverlays s3"
    using open_undismissed_frame [of now "set (map itemKey actionable)" "trackedSections s3" s3]
    by (simp add: opn_def)
  have r: "alarm_part (reshow_overlays (snd opn) (fst opn)) = alarm_part (fst opn) \<and>
           alertOverlays (fst opn) \<subseteq> alertOverlays (reshow_overlays (snd opn) (fst opn))"
    using reshow_overlays_frame [of "snd opn" "fst opn"] by simp
  have same: "soundRequests (refresh_finish now refs s) = soundRequests s3"
    "notifyRequests (refresh_finish now refs s) = notifyRequests s3"
    using o r by (simp_all add: fin alarm_part_def)
  have sub: "alertOverlays s3 \<subseteq> alertOverlays (refresh_finish now refs s)"
    using o r by (simp add: fin)
  have changed: "soundRequests s3 \<noteq> soundRequests s2 \<or> notifyRequests s3 \<noteq> notifyRequests s2"
    using assms same s2 by simp
  then have ne: "actionable \<noteq> []"
    by (auto simp: s3_def)
  then have s3: "s3 = triggerOpenAlert now actionable s2"
    by (simp add: s3_def)
  obtain item where item: "item \<in> set actionable" "itemKey item \<in> alertOverlays s3"
    using triggerOpenAlert_alarm [of now actionable s2] changed s3 by auto
  have "item \<in> set (deref (trackedSections s) refs)"
    using item(1) s2(1) by (simp add: actionable_def)
  then obtain i where "i \<in> set refs" "i < length (trackedSections s)" "item = trackedSections s ! i"
    using deref_mem by blast
  then show ?thesis
    using item(2) sub by auto
qed

lemma refresh_finish_bounds:
  "soundRequests (refresh_finish now refs s) \<le> soundRequests s + 1 \<and>
   length (notifyRequests (refresh_finish now refs s)) \<le> length (notifyRequests s) + 1"
proof -
  define s2 where "s2 = (renderTrackedList (saveTrackedSections s))
                 \<lparr>lastUpdated := Some now, trackedStatusText := [],
                  trackedStatusClasses :=
                    trackedStatusClasses (renderTrackedList (saveTrackedSections s)) - {''loading''}\<rparr>"
  define actionable where "actionable =
     filter (\<lambda>item. itemKey item \<in> set (map itemKey (trackedSections s2)))
       (deref (trackedSections s2) refs)"
  define s3 where "s3 = (if actionable \<noteq> [] then triggerOpenAlert now actionable s2 else s2)"
  define opn where "opn = open_undismissed now (set (map itemKey actionable)) (trackedSections s3) s3"
  have fin: "refresh_finish now refs s = reshow_overlays (snd opn) (fst opn)"
    by (simp add: refresh_finish_unfold s2_def actionable_def s3_def opn_def Let_def)
  have s2: "soundRequests s2 = soundRequests s" "notifyRequests s2 = notifyRequests s"
    using refresh_finish_start [where s = s] by (simp_all add: s2_def)
  have o: "alarm_part (fst opn) = alarm_part s3"
    using open_undismissed_frame [of now "set (map itemKey actionable)" "trackedSections s3" s3]
    by (simp add: opn_def)
  have r: "alarm_part (reshow_overlays (snd opn) (fst opn)) = alarm_part (fst opn)"
    using reshow_overlays_frame [of "snd opn" "fst opn"] by simp
  have same: "soundRequests (refresh_finish now refs s) = soundRequests s3"
    "notifyRequests (refresh_finish now refs s) = notifyRequests s3"
    using o r by (simp_all add: fin alarm_part_def)
  have "soundRequests s3 \<le> soundRequests s2 + 1 \<and>
        length (notifyRequests s3) \<le> length (notifyRequests s2) + 1"
    using triggerOpenAlert_frame [of now actionable s2] by (simp add: s3_def)
  then show ?thesis
    using same s2 by simp
qed

section \<open>The claim about sound and notifications\<close>

lemmas alert_defs =
  triggerOpenAlert_def isAlertDismissed_def showAlertOverItem_def startAlertSound_def
  showNotification_def alertMessage_def itemKey_def keyOf_def render_def Let_def

lemma reloaded_app_eq:
  "reloaded_app =
     (fresh_app (Some [item_1300]) Map.empty)
       \<lparr>trackedSections := [item_1300], trackedKeySet := {''FA25:1300''},
        trackedElements := [''FA25:1300'']\<rparr>"
  by (simp add: reloaded_app_def loadTrackedSections_def renderTrackedList_def itemKey_def
        keyOf_def render_def item_1300_def fresh_app_def Let_def)

text \<open>
  C9, as the claim states it, fails. At page load, \<open>showAlertsForOpenSections\<close> passes
  the sections whose stored status is already \<open>O\<close> to \<open>triggerOpenAlert\<close>: for a
  section that was stored open, with no transition observed, the overlay is shown, the
  sound is requested and a notification is requested.
\<close>

theorem stored_open_alert_at_page_load_counterexample:
  "lastStatus item_1300 = ''O'' \<and>
   storedTracked reloaded_app = Some [item_1300] \<and>
   soundRequests reloaded_app = 0 \<and> notifyRequests reloaded_app = [] \<and>
   showAlertsForOpenSections 1000 reloaded_app = (reloaded_app, Some [item_1300]) \<and>
   soundRequests (triggerOpenAlert 1100 [item_1300] reloaded_app) = 1 \<and>
   isAlerting (triggerOpenAlert 1100 [item_1300] reloaded_app) \<and>
   notifyRequests (triggerOpenAlert 1100 [item_1300] reloaded_app) =
     [(''CourseSnag Alert'', ''CS 3110 is now OPEN!'')] \<and>
   alertOverlays (triggerOpenAlert 1100 [item_1300] reloaded_app) = {''FA25:1300''}"
  by (simp add: reloaded_app_eq fresh_app_def showAlertsForOpenSections_def alert_defs item_1300_def)

text \<open>
  C9, amended. In a polling tick: the pass that shows the overlays of the sections
  that are open already (\<open>open_undismissed\<close>, \<open>reshow_overlays\<close>) requests no sound and
  no notification, for any sections and any state; if the tick requests the sound or a
  notification at all, then some section the loop classified newly opened has its
  overlay shown when the tick ends; and a tick requests the sound at most once and at
  most one notification.
\<close>

theorem tick_alarm_only_for_newly_opened:
  "soundRequests (fst (open_undismissed now excluded its t)) = soundRequests t \<and>
   notifyRequests (fst (open_undismissed now excluded its t)) = notifyRequests t \<and>
   soundRequests (reshow_overlays its t) = soundRequests t \<and>
   notifyRequests (reshow_overlays its t) = notifyRequests t \<and>
   (soundRequests (refreshTrackedSections replies s) \<noteq> soundRequests s \<or>
    notifyRequests (refreshTrackedSections replies s) \<noteq> notifyRequests s \<longrightarrow>
      (\<exists>i\<in>set (tick_newlyOpened replies s).
          i < length (trackedSections s) \<and>
          itemKey (trackedSections s ! i) \<in> alertOverlays (refreshTrackedSections replies s))) \<and>
   soundRequests (refreshTrackedSections replies s) \<le> soundRequests s + 1 \<and>
   length (notifyRequests (refreshTrackedSections replies s)) \<le> length (notifyRequests s) + 1"
proof -
  have pass: "soundRequests (fst (open_undismissed now excluded its t)) = soundRequests t \<and>
     notifyRequests (fst (open_undismissed now excluded its t)) = notifyRequests t \<and>
     soundRequests (reshow_overlays its t) = soundRequests t \<and>
     notifyRequests (reshow_overlays its t) = notifyRequests t"
    using open_undismissed_frame [of now excluded its t] reshow_overlays_frame [of its t]
    by (simp add: alarm_part_def)
  let ?R = "refreshTrackedSections replies s"
  let ?L = "refresh_groups replies 0 (tick_groups s) (tick_start s, [], 0)"
  let ?s1 = "fst (snd ?L)"
  let ?no = "fst (snd (snd ?L))"
  have no: "?no = tick_newlyOpened replies s"
    by (simp add: tick_newlyOpened_def)
  have frame: "outside_tick_loop ?s1 = outside_tick_loop (tick_start s) \<and>
               map itemKey (trackedSections ?s1) = map itemKey (trackedSections (tick_start s))"
    using refresh_groups_frame [of replies 0 "tick_groups s" "(tick_start s, [], 0)"] by simp
  have alarm1: "soundRequests ?s1 = soundRequests s" "notifyRequests ?s1 = notifyRequests s"
    using outside_tick_loop_eqD [of ?s1 "tick_start s"] frame
    by (simp_all add: alarm_part_def tick_start_def)
  have keys: "map itemKey (trackedSections ?s1) = map itemKey (trackedSections s)"
    using frame by (simp add: tick_start_def)
  have len: "length (trackedSections ?s1) = length (trackedSections s)"
    using keys by (metis length_map)
  have key: "itemKey (trackedSections ?s1 ! i) = itemKey (trackedSections s ! i)"
    if "i < length (trackedSections s)" for i
    using keys that len by (metis nth_map)
  consider (idle) "trackedSections s = [] \<or> isRefreshing s"
    | (failed) err where "trackedSections s \<noteq> []" "\<not> isRefreshing s" "fst ?L = Some err"
    | (succeeded) "trackedSections s \<noteq> []" "\<not> isRefreshing s" "fst ?L = None"
    by (cases "fst ?L") auto
  then have main:
    "(soundRequests ?R \<noteq> soundRequests s \<or> notifyRequests ?R \<noteq> notifyRequests s \<longrightarrow>
        (\<exists>i\<in>set (tick_newlyOpened replies s).
            i < length (trackedSections s) \<and>
            itemKey (trackedSections s ! i) \<in> alertOverlays ?R)) \<and>
     soundRequests ?R \<le> soundRequests s + 1 \<and>
     length (notifyRequests ?R) \<le> length (notifyRequests s) + 1"
  proof cases
    case idle
    then show ?thesis
      by (auto simp: refreshTrackedSections_def)
  next
    case failed
    have "soundRequests ?R = soundRequests ?s1 \<and> notifyRequests ?R = notifyRequests ?s1"
      using failed by (simp add: refreshTrackedSections_def Let_def case_prod_beta)
    then show ?thesis
      using alarm1 by simp
  next
    case succeeded
    let ?F = "refresh_finish (fst (replies (length (tick_groups s) - 1))) ?no ?s1"
    have R: "soundRequests ?R = soundRequests ?F \<and> notifyRequests ?R = notifyRequests ?F \<and>
             alertOverlays ?R = alertOverlays ?F"
      using succeeded by (simp add: refreshTrackedSections_def Let_def case_prod_beta)
    have bounds: "soundRequests ?F \<le> soundRequests ?s1 + 1 \<and>
                  length (notifyRequests ?F) \<le> length (notifyRequests ?s1) + 1"
      by (rule refresh_finish_bounds)
    have ex: "\<exists>i\<in>set (tick_newlyOpened replies s).
                i < length (trackedSections s) \<and>
                itemKey (trackedSections s ! i) \<in> alertOverlays ?R"
      if "soundRequests ?R \<noteq> soundRequests s \<or> notifyRequests ?R \<noteq> notifyRequests s"
    proof -
      have "soundRequests ?F \<noteq> soundRequests ?s1 \<or> notifyRequests ?F \<noteq> notifyRequests ?s1"
        using that R alarm1 by simp
      then obtain i where i: "i \<in> set ?no" "i < length (trackedSections ?s1)"
          "itemKey (trackedSections ?s1 ! i) \<in> alertOverlays ?F"
        using refresh_finish_alarm by blast
      have "i < length (trackedSections s)" using i(2) len by simp
      moreover have "itemKey (trackedSections s ! i) \<in> alertOverlays ?R"
        using i(3) key [OF \<open>i < length (trackedSections s)\<close>] R by simp
      ultimately show ?thesis
        using i(1) no by auto
    qed
    show ?thesis
      using ex bounds R alarm1 by auto
  qed
  from pass main show ?thesis by blast
qed

theorem tick_alarm_only_for_newly_opened_witness:
  "soundRequests (refreshTrackedSections opening_replies one_closed_app) \<noteq>
     soundRequests one_closed_app \<and>
   tick_newlyOpened opening_replies one_closed_app = [0] \<and>
   (\<exists>i\<in>set (tick_newlyOpened opening_replies one_closed_app).
      i < length (trackedSections one_closed_app) \<and>
      itemKey (trackedSections one_closed_app ! i)
        \<in> alertOverlays (refreshTrackedSections opening_replies one_closed_app)) \<and>
   soundRequests (refreshTrackedSections opening_replies one_closed_app) = 1"
proof -
  have h0: "soundRequests one_closed_app = 0"
    by code_simp
  have h1: "soundRequests (refreshTrackedSections opening_replies one_closed_app) = 1"
    by code_simp
  have h2: "tick_newlyOpened opening_replies one_closed_app = [0]"
    by code_simp
  show ?thesis
    using h0 h1 h2
      tick_alarm_only_for_newly_opened [of 0 "{}" "[]" one_closed_app opening_replies one_closed_app]
    by simp
qed

section \<open>Properties of the tracking store\<close>

lemma tracking_inv_same:
  "tracking_part a = tracking_part b \<Longrightarrow> tracking_inv a = tracking_inv b"
  by (simp add: tracking_part_def tracking_inv_def)

lemma tracking_inv_same_keys:
  "map itemKey (trackedSections a) = map itemKey (trackedSections b) \<Longrightarrow>
   trackedKeySet a = trackedKeySet b \<Longrightarrow> storedTracked a = storedTracked b \<Longrightarrow>
   tracking_inv a = tracking_inv b"
  by (simp add: tracking_inv_def)

lemma save_render_inv:
  assumes "distinct (map itemKey (trackedSections s))"
    and "trackedKeySet s = set (map itemKey (trackedSections s))"
    and "distinct (map itemKey (case storedTracked s of None \<Rightarrow> [] | Some l \<Rightarrow> l))"
  shows "tracking_inv (renderTrackedList (saveTrackedSections s))"
  using assms
  by (simp add: tracking_inv_def renderTrackedList_def saveTrackedSections_def)

lemma stopAlertSound_tracking [simp]:
  "tracking_part (stopAlertSound s) = tracking_part s"
  by (simp add: stopAlertSound_def tracking_part_def)

lemma saveDismissedAlerts_tracking [simp]:
  "tracking_part (saveDismissedAlerts s) = tracking_part s"
  by (simp add: saveDismissedAlerts_def tracking_part_def)

lemma dismiss_tracking:
  "tracking_part (onDismiss5min k now s) = tracking_part s"
proof -
  let ?s2 = "saveDismissedAlerts (s\<lparr>dismissedAlerts := (dismissedAlerts s)(k \<mapsto> now + 5 * 60 * 1000)\<rparr>)"
  have 1: "tracking_part ?s2 = tracking_part s"
    by (simp add: saveDismissedAlerts_def tracking_part_def)
  have 2: "tracking_part (snd (some_active now (trackedSections ?s2) ?s2)) = tracking_part ?s2"
    using some_active_frame [of now "trackedSections ?s2" ?s2] by simp
  have 3: "tracking_part (dismissAlertFor5Minutes k now s) = tracking_part s"
    using 1 2
    by (simp add: dismissAlertFor5Minutes_def hasActiveUndismissedOpenAlerts_def Let_def
          case_prod_beta tracking_part_def stopAlertSound_def)
  then show ?thesis
    by (simp add: onDismiss5min_def Let_def tracking_part_def)
qed

lemma eviction_tracking:
  "tracking_part (evictionTimerFires k s) = tracking_part s"
  by (simp add: evictionTimerFires_def saveDismissedAlerts_def tracking_part_def)

lemma toggleTrack_inv:
  assumes "tracking_inv s"
  shows "tracking_inv (toggleTrack n sbj cat ttl sec component st now s)"
proof (cases "keyOf (currentRoster s) n \<in> trackedKeySet s")
  case True
  then show ?thesis
    using assms by (simp add: toggleTrack_def Let_def)
next
  case False
  let ?new = "\<lparr>classNbr = n, roster = currentRoster s, subject = sbj, catalogNbr = cat,
                title = ttl, sectionName = sec, ssrComponent = component, lastStatus = st,
                lastCheckedAt = now\<rparr>"
  let ?s1 = "s\<lparr>trackedSections := trackedSections s @ [?new],
              trackedKeySet := insert (keyOf (currentRoster s) n) (trackedKeySet s)\<rparr>"
  let ?s2 = "renderTrackedList (saveTrackedSections ?s1)"
  have k: "itemKey ?new = keyOf (currentRoster s) n"
    by (simp add: itemKey_def)
  have inv2: "tracking_inv ?s2"
    using assms False k
    by (intro save_render_inv) (auto simp: tracking_inv_def)
  have "tracking_inv (triggerOpenAlert now [?new] ?s2)"
    using inv2 triggerOpenAlert_frame [of now "[?new]" ?s2] tracking_inv_same by blast
  then show ?thesis
    using False inv2 by (auto simp: toggleTrack_def Let_def)
qed

lemma untrack_keys_frame:
  "trackedSections (untrack_keys ks s) = trackedSections s \<and>
   storedTracked (untrack_keys ks s) = storedTracked s \<and>
   storageWritable (untrack_keys ks s) = storageWritable s \<and>
   trackedKeySet (untrack_keys ks s) = trackedKeySet s - set ks"
proof (induction ks arbitrary: s)
  case Nil
  then show ?case by simp
next
  case (Cons k ks)
  let ?s1 = "s\<lparr>trackedKeySet := trackedKeySet s - {k}\<rparr>"
  let ?s2 = "if dismissedAlerts ?s1 k \<noteq> None
             then saveDismissedAlerts (?s1\<lparr>dismissedAlerts := (dismissedAlerts ?s1)(k := None)\<rparr>)
             else ?s1"
  let ?s3 = "?s2\<lparr>alertOverlays := alertOverlays ?s2 - {k}\<rparr>"
  have s3: "trackedSections ?s3 = trackedSections s \<and> storedTracked ?s3 = storedTracked s \<and>
            storageWritable ?s3 = storageWritable s \<and>
            trackedKeySet ?s3 = trackedKeySet s - {k}"
    by (simp add: saveDismissedAlerts_def)
  have "untrack_keys (k # ks) s = untrack_keys ks ?s3"
    by (simp add: Let_def)
  then show ?case
    using Cons.IH [of ?s3] s3 by auto
qed

lemma keys_without_removed:
  assumes "distinct (map f xs)"
  shows "set (map f xs) - set (map f (filter P xs)) = set (map f (filter (\<lambda>x. \<not> P x) xs))"
proof -
  have inj: "inj_on f (set xs)"
    using assms by (simp add: distinct_map)
  show ?thesis
  proof (intro set_eqI iffI)
    fix y assume "y \<in> set (map f xs) - set (map f (filter P xs))"
    then show "y \<in> set (map f (filter (\<lambda>x. \<not> P x) xs))" by auto
  next
    fix y assume "y \<in> set (map f (filter (\<lambda>x. \<not> P x) xs))"
    then obtain x where x: "x \<in> set xs" "\<not> P x" "y = f x" by auto
    have "y \<notin> set (map f (filter P xs))"
    proof
      assume "y \<in> set (map f (filter P xs))"
      then obtain x' where x': "x' \<in> set xs" "P x'" "y = f x'" by auto
      then have "x = x'" using inj x by (auto dest: inj_onD)
      then show False using x x' by simp
    qed
    then show "y \<in> set (map f xs) - set (map f (filter P xs))"
      using x by auto
  qed
qed

lemma untrack_inv:
  assumes "tracking_inv s"
  shows "tracking_inv (untrack n r now s)"
proof -
  let ?m = "untrack_matches n r"
  let ?removed = "map itemKey (filter ?m (trackedSections s))"
  let ?s1 = "s\<lparr>trackedSections := filter (\<lambda>t. \<not> ?m t) (trackedSections s)\<rparr>"
  let ?s2 = "untrack_keys ?removed ?s1"
  let ?s3 = "snd (some_active now (trackedSections ?s2) ?s2)"
  let ?s4 = "if \<not> fst (some_active now (trackedSections ?s2) ?s2) then stopAlertSound ?s3 else ?s3"
  have d: "distinct (map itemKey (trackedSections s))"
    and ks: "trackedKeySet s = set (map itemKey (trackedSections s))"
    and st: "distinct (map itemKey (case storedTracked s of None \<Rightarrow> [] | Some l \<Rightarrow> l))"
    using assms by (simp_all add: tracking_inv_def)
  have f2: "trackedSections ?s2 = filter (\<lambda>t. \<not> ?m t) (trackedSections s) \<and>
            storedTracked ?s2 = storedTracked s \<and>
            trackedKeySet ?s2 = trackedKeySet s - set ?removed"
    using untrack_keys_frame [of ?removed ?s1] by simp
  have k2: "trackedKeySet ?s2 = set (map itemKey (trackedSections ?s2))"
    using f2 ks keys_without_removed [OF d, of ?m] by simp
  have d2: "distinct (map itemKey (trackedSections ?s2))"
    using f2 d by (simp add: distinct_map_filter)
  have t3: "tracking_part ?s3 = tracking_part ?s2"
    using some_active_frame [of now "trackedSections ?s2" ?s2] by simp
  have t4: "tracking_part ?s4 = tracking_part ?s2"
    using t3 by simp
  have p4: "distinct (map itemKey (trackedSections ?s4)) \<and>
            trackedKeySet ?s4 = set (map itemKey (trackedSections ?s4)) \<and>
            distinct (map itemKey (case storedTracked ?s4 of None \<Rightarrow> [] | Some l \<Rightarrow> l))"
    using t4 k2 d2 f2 st unfolding tracking_part_def by (metis prod.inject)
  have "tracking_inv (renderTrackedList (saveTrackedSections ?s4))"
    using p4 by (intro save_render_inv) blast+
  moreover have "untrack n r now s = renderTrackedList (saveTrackedSections ?s4)"
    by (simp add: untrack_def hasActiveUndismissedOpenAlerts_def Let_def case_prod_beta)
  ultimately show ?thesis by simp
qed

lemma load_inv:
  assumes "tracking_inv s"
  shows "tracking_inv (loadTrackedSections s)"
  using assms
  by (auto simp: tracking_inv_def loadTrackedSections_def renderTrackedList_def Let_def
        split: option.splits)

lemma refresh_finish_inv:
  assumes "tracking_inv s"
  shows "tracking_inv (refresh_finish now refs s)"
proof -
  define s2 where "s2 = (renderTrackedList (saveTrackedSections s))
                 \<lparr>lastUpdated := Some now, trackedStatusText := [],
                  trackedStatusClasses :=
                    trackedStatusClasses (renderTrackedList (saveTrackedSections s)) - {''loading''}\<rparr>"
  define actionable where "actionable =
     filter (\<lambda>item. itemKey item \<in> set (map itemKey (trackedSections s2)))
       (deref (trackedSections s2) refs)"
  define s3 where "s3 = (if actionable \<noteq> [] then triggerOpenAlert now actionable s2 else s2)"
  define opn where "opn = open_undismissed now (set (map itemKey actionable)) (trackedSections s3) s3"
  have fin: "refresh_finish now refs s = reshow_overlays (snd opn) (fst opn)"
    by (simp add: refresh_finish_unfold s2_def actionable_def s3_def opn_def Let_def)
  have "tracking_inv (renderTrackedList (saveTrackedSections s))"
    using assms by (intro save_render_inv) (simp_all add: tracking_inv_def)
  moreover have "tracking_part s2 = tracking_part (renderTrackedList (saveTrackedSections s))"
    by (simp add: s2_def tracking_part_def)
  ultimately have i2: "tracking_inv s2"
    using tracking_inv_same by blast
  have "tracking_part s3 = tracking_part s2"
    using triggerOpenAlert_frame [of now actionable s2] by (simp add: s3_def)
  moreover have "tracking_part (fst opn) = tracking_part s3"
    using open_undismissed_frame [of now "set (map itemKey actionable)" "trackedSections s3" s3]
    by (simp add: opn_def)
  moreover have "tracking_part (reshow_overlays (snd opn) (fst opn)) = tracking_part (fst opn)"
    using reshow_overlays_frame [of "snd opn" "fst opn"] by simp
  ultimately have "tracking_part (refresh_finish now refs s) = tracking_part s2"
    by (simp add: fin)
  then show ?thesis
    using i2 tracking_inv_same by blast
qed

lemma refresh_inv:
  assumes "tracking_inv s"
  shows "tracking_inv (refreshTrackedSections replies s)"
proof -
  let ?L = "refresh_groups replies 0 (tick_groups s) (tick_start s, [], 0)"
  let ?s1 = "fst (snd ?L)"
  have frame: "outside_tick_loop ?s1 = outside_tick_loop (tick_start s) \<and>
               map itemKey (trackedSections ?s1) = map itemKey (trackedSections (tick_start s))"
    using refresh_groups_frame [of replies 0 "tick_groups s" "(tick_start s, [], 0)"] by simp
  have "tracking_inv ?s1 = tracking_inv (tick_start s)"
    using frame outside_tick_loop_eqD [of ?s1 "tick_start s"]
    by (intro tracking_inv_same_keys) simp_all
  moreover have "tracking_inv (tick_start s) = tracking_inv s"
    by (intro tracking_inv_same) (simp add: tick_start_def tracking_part_def)
  ultimately have i1: "tracking_inv ?s1"
    using assms by simp
  have upd: "tracking_inv (a\<lparr>trackedStatusText := x, trackedStatusClasses := y\<rparr>) = tracking_inv a"
    for a x y
    by (simp add: tracking_inv_def)
  have fin: "tracking_inv (a\<lparr>isRefreshing := False, refreshBtnDisabled := False\<rparr>) = tracking_inv a"
    for a
    by (simp add: tracking_inv_def)
  show ?thesis
  proof (cases "trackedSections s = [] \<or> isRefreshing s")
    case True
    then show ?thesis
      using assms upd by (auto simp: refreshTrackedSections_def)
  next
    case False
    show ?thesis
    proof (cases "fst ?L")
      case None
      have "tracking_inv (refresh_finish (fst (replies (length (tick_groups s) - 1)))
                            (fst (snd (snd ?L))) ?s1)"
        using i1 by (rule refresh_finish_inv)
      then show ?thesis
        using False None by (simp add: refreshTrackedSections_def Let_def case_prod_beta fin)
    next
      case (Some err)
      then show ?thesis
        using False i1 by (simp add: refreshTrackedSections_def Let_def case_prod_beta fin upd)
    qed
  qed
qed

lemma perform_inv:
  assumes "tracking_inv s"
  shows "tracking_inv (perform s a)"
proof (cases a)
  case (Track n sbj cat ttl sec component st now)
  then show ?thesis using assms by (simp add: toggleTrack_inv)
next
  case (Untrack n r now)
  then show ?thesis using assms by (simp add: untrack_inv)
next
  case Load
  then show ?thesis using assms by (simp add: load_inv)
next
  case (Tick replies)
  then show ?thesis using assms by (simp add: refresh_inv)
next
  case (Dismiss k now)
  then show ?thesis
    using assms tracking_inv_same [OF dismiss_tracking [of k now s]] by simp
next
  case (EvictionFires k)
  then show ?thesis
    using assms tracking_inv_same [OF eviction_tracking [of k s]] by simp
qed

lemma session_inv:
  "tracking_inv s \<Longrightarrow> tracking_inv (foldl perform s acts)"
proof (induction acts arbitrary: s)
  case Nil
  then show ?case by simp
next
  case (Cons a acts)
  have "tracking_inv (perform s a)"
    using Cons.prems by (rule perform_inv)
  then have "tracking_inv (foldl perform (perform s a) acts)"
    by (rule Cons.IH)
  then show ?case by simp
qed

lemma fresh_tracking_inv: "tracking_inv (fresh_app None sd)"
  by (simp add: tracking_inv_def fresh_app_def)

lemma distinct_identity:
  assumes "distinct (map itemKey ts)"
  shows "distinct (map identity ts)"
proof -
  have "itemKey = (\<lambda>p. keyOf (fst p) (snd p)) \<circ> identity"
    by (auto simp: itemKey_def identity_def)
  then have inj: "inj_on ((\<lambda>p. keyOf (fst p) (snd p)) \<circ> identity) (set ts)"
    and d: "distinct ts"
    using assms by (simp_all add: distinct_map)
  from inj have "inj_on identity (set ts)"
    by (rule inj_on_imageI2)
  with d show ?thesis
    by (simp add: distinct_map)
qed

text \<open>
  C10. Start from a state in which the tracked list has no key twice, the key set is
  the set of the list's keys, and the stored list has no key twice; the state of a first
  visit is one. After any sequence of the handlers that touch the tracked set (track,
  untrack, load from storage, a polling tick, dismiss, an eviction timer), the list has
  at most one entry for each (roster, class number) and \<open>trackedKeySet\<close> is exactly the
  set of the keys of the list; the three conditions hold again. The same holds after
  each single one of \<open>toggleTrack\<close>, \<open>untrack\<close> and \<open>loadTrackedSections\<close>.
\<close>

theorem tracked_list_and_key_set_agree:
  assumes "tracking_inv s"
  shows "distinct (map identity (trackedSections (foldl perform s acts))) \<and>
         trackedKeySet (foldl perform s acts) =
           set (map itemKey (trackedSections (foldl perform s acts))) \<and>
         tracking_inv (foldl perform s acts) \<and>
         tracking_inv (toggleTrack n sbj cat ttl sec component st now s) \<and>
         tracking_inv (untrack n r now s) \<and>
         tracking_inv (loadTrackedSections s) \<and>
         tracking_inv (fresh_app None sd)"
proof -
  have i: "tracking_inv (foldl perform s acts)"
    using assms by (rule session_inv)
  then have "distinct (map identity (trackedSections (foldl perform s acts)))"
    by (simp add: tracking_inv_def distinct_identity)
  then show ?thesis
    using i assms
    by (simp add: tracking_inv_def [of "foldl perform s acts"] toggleTrack_inv untrack_inv
          load_inv fresh_tracking_inv)
qed

theorem tracked_list_and_key_set_agree_witness:
  "tracking_inv loaded_app \<and>
   distinct (map identity (trackedSections tracked_app)) \<and>
   trackedKeySet tracked_app = set (map itemKey (trackedSections tracked_app)) \<and>
   map classNbr (trackedSections tracked_app) = [''1234'', ''1300'', ''5678'', ''9999'']"
proof -
  have h: "tracking_inv loaded_app"
    by (simp add: tracking_inv_def loaded_app_def fresh_app_def)
  have c: "map classNbr (trackedSections tracked_app) = [''1234'', ''1300'', ''5678'', ''9999'']"
    by (simp add: tracked_app_fields item_1234_def item_1300_def item_5678_def item_9999_def)
  note t = tracked_list_and_key_set_agree [OF h,
        of "[Track ''1234'' ''CS'' ''2110'' ''OO Programming'' ''001'' ''LEC'' ''C'' 100,
             Track ''1300'' ''CS'' ''3110'' ''Functional Programming'' ''001'' ''LEC'' ''O'' 200,
             Track ''5678'' ''MATH'' ''1920'' ''Multivariable Calculus'' ''001'' ''LEC'' ''W'' 300,
             Track ''9999'' ''CS'' ''4999'' ''Project'' ''001'' ''IND'' ''C'' 400]",
        folded tracked_app_def]
  have d: "distinct (map identity (trackedSections tracked_app))"
    using t [THEN conjunct1] .
  have k: "trackedKeySet tracked_app = set (map itemKey (trackedSections tracked_app))"
    using t [THEN conjunct2, THEN conjunct1] .
  from h d k c show ?thesis by (intro conjI)
qed

end
